theory Spec2Isabelle
  imports Main "HOL-Library.AList"
begin

section \<open>JavaScript values\<close>

text \<open>
  The filter translator of \<^verbatim>\<open>qlocalfileapi.cpp\<close> turns the filter strings of a file dialog
  into the options object of the browser's file picker. It builds its results as
  \<^verbatim>\<open>emscripten::val\<close> handles on JavaScript values.

  Modelled from the spec: \<^verbatim>\<open>emscripten::val\<close>, which the translated file only uses. The
  options are described as an object of optional keys that hold strings, booleans, arrays
  and objects. An object is kept as an association list in insertion order (a key that is
  not in the list is absent); \<^verbatim>\<open>set\<close> replaces the value of an existing key and appends a
  new one, as a JavaScript property assignment does; \<^verbatim>\<open>push\<close> appends to an array.
\<close>

datatype val = Str string | Bool bool | Array "val list" | Object "(string \<times> val) list"

fun val_set :: "val \<Rightarrow> string \<Rightarrow> val \<Rightarrow> val" where
  "val_set (Object ps) k v = Object (AList.update k v ps)"
| "val_set x k v = x"

fun val_push :: "val \<Rightarrow> val \<Rightarrow> val" where
  "val_push (Array xs) v = Array (xs @ [v])"
| "val_push x v = x"

fun val_length :: "val \<Rightarrow> nat" where
  "val_length (Array xs) = length xs"
| "val_length x = 0"

fun val_get :: "val \<Rightarrow> string \<Rightarrow> val option" where
  "val_get (Object ps) k = map_of ps k"
| "val_get x k = None"

section \<open>Strings\<close>

text \<open>
  A \<^verbatim>\<open>QString\<close> is a sequence of code units; here it is a \<open>string\<close>, a list of the 256
  characters of HOL. The translator only compares characters with \<^verbatim>\<open>(\<close>, \<^verbatim>\<open>)\<close>, \<^verbatim>\<open>*\<close>, \<^verbatim>\<open>.\<close> and
  with white space, so nothing depends on the characters left out. The conversion
  \<^verbatim>\<open>toStdString\<close> and the one to a JavaScript string keep the characters.

  Modelled from the spec: \<^verbatim>\<open>QStringView::trimmed\<close> and \<^verbatim>\<open>QChar::isSpace\<close>, which are library
  code (the description of a file type is "trimmed"). White space for \<^verbatim>\<open>QChar::isSpace\<close> is
  U+0020, U+0009 to U+000D, U+0085 and U+00A0 among these characters; \<open>trimmed\<close> removes
  white space from both ends.
\<close>

definition isSpace :: "char \<Rightarrow> bool" where
  "isSpace c \<longleftrightarrow> c \<in> set [CHR 0x20, CHR 0x09, CHR 0x0A, CHR 0x0B, CHR 0x0C, CHR 0x0D, CHR 0x85, CHR 0xA0]"

definition trimmed :: "string \<Rightarrow> string" where
  "trimmed s = rev (dropWhile isSpace (rev (dropWhile isSpace s)))"

section \<open>Regular expressions\<close>

text \<open>
  Modelled from the spec: \<^verbatim>\<open>QRegularExpression\<close> and \<^verbatim>\<open>QRegularExpressionMatch\<close>, which are
  library code that the translated file only calls. The specification asks to keep "the
  exact match semantics" of the original patterns (anchored, whole-token matches; first
  match wins). These are the semantics of a Perl-compatible backtracking matcher: the
  match starts at the leftmost possible offset, an earlier alternative is preferred to a
  later one, and the quantifiers \<^verbatim>\<open>?\<close>, \<^verbatim>\<open>*\<close> and \<^verbatim>\<open>+\<close> are greedy. The patterns of the file use
  literals, character classes, sequencing, alternation, these quantifiers, capturing
  groups and the anchors \<^verbatim>\<open>\A\<close> and \<^verbatim>\<open>\z\<close> that \<^verbatim>\<open>anchoredPattern\<close> adds.
\<close>

datatype regex =
    Lit char
  | OneOf "char list"
  | NoneOf "char list"
  | Seq regex regex
  | Alt regex regex
  | Opt regex
  | Star regex
  | Plus regex
  | Group nat regex
  | BeginText
  | EndText

text \<open>
  A matcher state holds the groups captured so far (most recent first), the current
  offset into the subject and the part of the subject from that offset on.
\<close>

type_synonym mstate = "(nat \<times> string) list \<times> nat \<times> string"

fun one :: "(char \<Rightarrow> bool) \<Rightarrow> mstate \<Rightarrow> mstate list" where
  "one P (c, p, []) = []"
| "one P (c, p, x # xs) = (if P x then [(c, Suc p, xs)] else [])"

text \<open>
  Greedy repetition: every way of running the body once more (with progress) is tried
  before stopping here. The fuel is the number of characters left, which bounds the
  number of iterations that make progress.
\<close>

fun rep :: "(mstate \<Rightarrow> mstate list) \<Rightarrow> nat \<Rightarrow> mstate \<Rightarrow> mstate list" where
  "rep f 0 st = [st]"
| "rep f (Suc n) st =
     concat (map (rep f n) (filter (\<lambda>st'. fst (snd st) < fst (snd st')) (f st))) @ [st]"

fun capture :: "nat \<Rightarrow> mstate \<Rightarrow> mstate \<Rightarrow> mstate" where
  "capture n (c0, p0, s0) (c, p, s) = ((n, take (p - p0) s0) # c, p, s)"

text \<open>
  \<open>ms r st\<close> lists, in the order in which a backtracking matcher tries them, the states
  in which a match of \<open>r\<close> started in \<open>st\<close> can end.
\<close>

primrec ms :: "regex \<Rightarrow> mstate \<Rightarrow> mstate list" where
  "ms (Lit a) st = one (\<lambda>x. x = a) st"
| "ms (OneOf cs) st = one (\<lambda>x. x \<in> set cs) st"
| "ms (NoneOf cs) st = one (\<lambda>x. x \<notin> set cs) st"
| "ms (Seq a b) st = concat (map (ms b) (ms a st))"
| "ms (Alt a b) st = ms a st @ ms b st"
| "ms (Opt a) st = ms a st @ [st]"
| "ms (Star a) st = rep (ms a) (length (snd (snd st))) st"
| "ms (Plus a) st = concat (map (\<lambda>st'. rep (ms a) (length (snd (snd st'))) st') (ms a st))"
| "ms (Group n a) st = map (capture n st) (ms a st)"
| "ms BeginText st = (if fst (snd st) = 0 then [st] else [])"
| "ms EndText st = (if snd (snd st) = [] then [st] else [])"

text \<open>
  A match, as \<^verbatim>\<open>QRegularExpressionMatch\<close> reports it: the offsets of its start and end and
  the text of each group that took part in it. No match (\<^verbatim>\<open>hasMatch\<close> false) is \<open>None\<close>.
\<close>

record QRegularExpressionMatch =
  capturedStart :: nat
  capturedEnd :: nat
  captures :: "(nat \<times> string) list"

text \<open>The leftmost offset at which the pattern matches, and the first match found there.\<close>

fun search :: "regex \<Rightarrow> nat \<Rightarrow> string \<Rightarrow> QRegularExpressionMatch option" where
  "search r p [] =
     (case ms r ([], p, []) of
        (c, e, t) # other \<Rightarrow> Some \<lparr>capturedStart = p, capturedEnd = e, captures = c\<rparr>
      | [] \<Rightarrow> None)"
| "search r p (x # xs) =
     (case ms r ([], p, x # xs) of
        (c, e, t) # other \<Rightarrow> Some \<lparr>capturedStart = p, capturedEnd = e, captures = c\<rparr>
      | [] \<Rightarrow> search r (Suc p) xs)"

text \<open>
  \<^verbatim>\<open>match(subject, offset)\<close>, \<^verbatim>\<open>hasCaptured(n)\<close>, \<^verbatim>\<open>capturedView(n)\<close> (empty for a group that
  took no part in the match) and \<^verbatim>\<open>anchoredPattern\<close>.
\<close>

definition regex_match :: "regex \<Rightarrow> string \<Rightarrow> nat \<Rightarrow> QRegularExpressionMatch option" where
  "regex_match r subject offset =
     (if offset \<le> length subject then search r offset (drop offset subject) else None)"

definition hasCaptured :: "QRegularExpressionMatch \<Rightarrow> nat \<Rightarrow> bool" where
  "hasCaptured m n \<longleftrightarrow> map_of (captures m) n \<noteq> None"

definition capturedView :: "QRegularExpressionMatch \<Rightarrow> nat \<Rightarrow> string" where
  "capturedView m n = (case map_of (captures m) n of None \<Rightarrow> [] | Some t \<Rightarrow> t)"

definition anchoredPattern :: "regex \<Rightarrow> regex" where
  "anchoredPattern r = Seq BeginText (Seq r EndText)"

section \<open>The patterns of the translated unit\<close>

text \<open>\<^verbatim>\<open>\s\<close>: the six ASCII white-space characters.\<close>

definition space_class :: "char list" where
  "space_class = [CHR 0x20, CHR 0x09, CHR 0x0A, CHR 0x0B, CHR 0x0C, CHR 0x0D]"

text \<open>\<^verbatim>\<open>(?:(?:([^(]*)\(([^()]+)\)[^)]*)|([^()]+))\<close>\<close>

definition type_regex :: regex where
  "type_regex =
     Alt (Seq (Group 1 (Star (NoneOf ''('')))
            (Seq (Lit CHR ''('')
              (Seq (Group 2 (Plus (NoneOf ''()'')))
                (Seq (Lit CHR '')'') (Star (NoneOf '')''))))))
         (Group 3 (Plus (NoneOf ''()'')))"

text \<open>\<^verbatim>\<open>([^\s]+)\s*\<close>\<close>

definition internalRegex :: regex where
  "internalRegex = Seq (Group 1 (Plus (NoneOf space_class))) (Star (OneOf space_class))"

text \<open>\<^verbatim>\<open>[*]+|[*]+\.[*]+\<close>, anchored\<close>

definition qtAcceptAllRegex :: regex where
  "qtAcceptAllRegex =
     anchoredPattern
       (Alt (Plus (OneOf ''*''))
            (Seq (Plus (OneOf ''*'')) (Seq (Lit CHR ''.'') (Plus (OneOf ''*'')))))"

text \<open>\<^verbatim>\<open>(\*?)(\.[^*]+)\<close>, anchored\<close>

definition qtFilenameMatcherRegex :: regex where
  "qtFilenameMatcherRegex =
     anchoredPattern
       (Seq (Group 1 (Opt (Lit CHR ''*'')))
            (Group 2 (Seq (Lit CHR ''.'') (Plus (NoneOf ''*'')))))"

section \<open>The filter translator\<close>

text \<open>
  Each of the classes \<^verbatim>\<open>Type\<close>, \<^verbatim>\<open>Accept\<close>, \<^verbatim>\<open>MimeType\<close> and \<^verbatim>\<open>Extension\<close> holds one
  JavaScript value \<^verbatim>\<open>m_storage\<close>, which \<^verbatim>\<open>asVal\<close> returns; an object of the class is that
  value here. A function that returns \<^verbatim>\<open>std::optional\<close> returns an \<open>option\<close>.
\<close>

definition Extension :: "string \<Rightarrow> val" where
  "Extension extension = Str extension"

definition Extension_fromQt :: "string \<Rightarrow> val option" where
  "Extension_fromQt qtRepresentation =
     (if regex_match qtAcceptAllRegex qtRepresentation 0 \<noteq> None then None
      else case regex_match qtFilenameMatcherRegex qtRepresentation 0 of
             Some extensionMatch \<Rightarrow> Some (Extension (capturedView extensionMatch 2))
           | None \<Rightarrow> None)"

definition MimeType :: val where
  "MimeType = Array []"

definition addExtension :: "val \<Rightarrow> val \<Rightarrow> val" where
  "addExtension mimeType extension = val_push mimeType extension"

definition Accept :: val where
  "Accept = Object []"

definition addMimeType :: "val \<Rightarrow> val \<Rightarrow> val" where
  "addMimeType accept mimeType = val_set accept ''application/octet-stream'' mimeType"

definition Type :: "string \<Rightarrow> val option \<Rightarrow> val" where
  "Type description accept =
     (let m_storage = val_set (Object []) ''description'' (Str (trimmed description))
      in case accept of
           Some a \<Rightarrow> val_set m_storage ''accept'' a
         | None \<Rightarrow> m_storage)"

section \<open>The matcher and the language of a pattern\<close>

text \<open>
  The end states of the matcher are exactly the ways of reading a word of the pattern's
  language from the subject (for a pattern without anchors; an anchor reads the empty
  word). What the matcher adds to the language is the order of the end states.
\<close>

inductive_set star_lang :: "string set \<Rightarrow> string set" for L :: "string set" where
  star_Nil: "[] \<in> star_lang L"
| star_App: "u \<in> L \<Longrightarrow> v \<in> star_lang L \<Longrightarrow> u @ v \<in> star_lang L"

primrec lang :: "regex \<Rightarrow> string set" where
  "lang (Lit a) = {[a]}"
| "lang (OneOf cs) = {[x] | x. x \<in> set cs}"
| "lang (NoneOf cs) = {[x] | x. x \<notin> set cs}"
| "lang (Seq a b) = {u @ v | u v. u \<in> lang a \<and> v \<in> lang b}"
| "lang (Alt a b) = lang a \<union> lang b"
| "lang (Opt a) = insert [] (lang a)"
| "lang (Star a) = star_lang (lang a)"
| "lang (Plus a) = {u @ v | u v. u \<in> lang a \<and> v \<in> star_lang (lang a)}"
| "lang (Group n a) = lang a"
| "lang BeginText = {[]}"
| "lang EndText = {[]}"

primrec anchor_free :: "regex \<Rightarrow> bool" where
  "anchor_free (Lit a) \<longleftrightarrow> True"
| "anchor_free (OneOf cs) \<longleftrightarrow> True"
| "anchor_free (NoneOf cs) \<longleftrightarrow> True"
| "anchor_free (Seq a b) \<longleftrightarrow> anchor_free a \<and> anchor_free b"
| "anchor_free (Alt a b) \<longleftrightarrow> anchor_free a \<and> anchor_free b"
| "anchor_free (Opt a) \<longleftrightarrow> anchor_free a"
| "anchor_free (Star a) \<longleftrightarrow> anchor_free a"
| "anchor_free (Plus a) \<longleftrightarrow> anchor_free a"
| "anchor_free (Group n a) \<longleftrightarrow> anchor_free a"
| "anchor_free BeginText \<longleftrightarrow> False"
| "anchor_free EndText \<longleftrightarrow> False"

definition reaches :: "string set \<Rightarrow> mstate \<Rightarrow> mstate \<Rightarrow> bool" where
  "reaches L st st' \<longleftrightarrow>
     (\<exists>w \<in> L. snd (snd st) = w @ snd (snd st') \<and> fst (snd st') = fst (snd st) + length w)"

lemma one_reaches: "st' \<in> set (one P st) \<Longrightarrow> reaches {[x] | x. P x} st st'"
  by (cases "(P, st)" rule: one.cases) (auto simp: reaches_def split: if_splits)

lemma reaches_Seq:
  "reaches A st st1 \<Longrightarrow> reaches B st1 st2 \<Longrightarrow> reaches {u @ v | u v. u \<in> A \<and> v \<in> B} st st2"
  unfolding reaches_def by fastforce

lemma rep_reaches:
  assumes "\<And>st st'. st' \<in> set (f st) \<Longrightarrow> reaches L st st'"
  shows "st' \<in> set (rep f n st) \<Longrightarrow> reaches (star_lang L) st st'"
proof (induction n arbitrary: st)
  case 0
  then show ?case by (auto simp: reaches_def intro: star_Nil)
next
  case (Suc n)
  from Suc.prems consider "st' = st"
    | st1 where "st1 \<in> set (f st)" "st' \<in> set (rep f n st1)"
    by auto
  then show ?case
  proof cases
    case 1
    then show ?thesis by (auto simp: reaches_def intro: star_Nil)
  next
    case 2
    from assms [OF 2(1)] Suc.IH [OF 2(2)] show ?thesis
      unfolding reaches_def by (fastforce intro: star_App)
  qed
qed

lemma capture_reaches: "reaches L st st' \<Longrightarrow> reaches L st (capture n st st')"
  by (cases st; cases st') (simp add: reaches_def)

lemma ms_sound: "st' \<in> set (ms r st) \<Longrightarrow> reaches (lang r) st st'"
proof (induction r arbitrary: st st')
  case (Seq a b)
  then obtain st1 where 1: "st1 \<in> set (ms a st)" and 2: "st' \<in> set (ms b st1)" by auto
  from reaches_Seq [OF Seq.IH(1) [OF 1] Seq.IH(2) [OF 2]] show ?case by simp
next
  case (Star a)
  from Star.prems have "st' \<in> set (rep (ms a) (length (snd (snd st))) st)" by simp
  from rep_reaches [of "ms a" "lang a", OF Star.IH this] show ?case by simp
next
  case (Plus a)
  then obtain st1 where 1: "st1 \<in> set (ms a st)"
    and 2: "st' \<in> set (rep (ms a) (length (snd (snd st1))) st1)" by auto
  from reaches_Seq [OF Plus.IH [OF 1] rep_reaches [of "ms a" "lang a", OF Plus.IH 2]]
  show ?case by simp
next
  case (Group n a)
  then obtain st1 where 1: "st1 \<in> set (ms a st)" and 2: "st' = capture n st st1" by auto
  from capture_reaches [OF Group.IH [OF 1]] show ?case by (simp add: 2)
next
  case (Alt a b)
  from Alt.prems have "st' \<in> set (ms a st) \<or> st' \<in> set (ms b st)" by simp
  with Alt.IH(1) [of st' st] Alt.IH(2) [of st' st] show ?case
    unfolding reaches_def by (cases st; cases st') auto
next
  case (Opt a)
  from Opt.prems have "st' \<in> set (ms a st) \<or> st' = st" by auto
  with Opt.IH [of st' st] show ?case
    unfolding reaches_def by (cases st; cases st') auto
next
  case (Lit a)
  from one_reaches [of st' "\<lambda>x. x = a" st] Lit show ?case by simp
next
  case (OneOf cs)
  from one_reaches [of st' "\<lambda>x. x \<in> set cs" st] OneOf show ?case by simp
next
  case (NoneOf cs)
  from one_reaches [of st' "\<lambda>x. x \<notin> set cs" st] NoneOf show ?case by simp
next
  case BeginText
  then show ?case by (auto simp: reaches_def split: if_splits)
next
  case EndText
  then show ?case by (auto simp: reaches_def split: if_splits)
qed

lemma rep_self: "st \<in> set (rep f n st)"
  by (cases n) simp_all

lemma rep_complete:
  assumes "\<And>u c p s. u \<in> L \<Longrightarrow> \<exists>c'. (c', p + length u, s) \<in> set (f (c, p, u @ s))"
  shows "w \<in> star_lang L \<Longrightarrow> length (w @ s) \<le> n \<Longrightarrow>
    \<exists>c'. (c', p + length w, s) \<in> set (rep f n (c, p, w @ s))"
proof (induction w arbitrary: n c p rule: star_lang.induct)
  case star_Nil
  from rep_self [of "(c, p, s)" f n] show ?case by auto
next
  case (star_App u v)
  show ?case
  proof (cases "u = []")
    case True
    with star_App.prems have "length (v @ s) \<le> n" by simp
    from star_App.IH [OF this, where c = c and p = p] show ?thesis by (simp add: True)
  next
    case False
    then have "Suc (length (v @ s)) \<le> length ((u @ v) @ s)" by (cases u) simp_all
    from this star_App.prems have "Suc (length (v @ s)) \<le> n" by (rule le_trans)
    then obtain k where n: "n = Suc k" and k: "length (v @ s) \<le> k"
      by (cases n) auto
    from assms [OF star_App.hyps(1), of p "v @ s" c] obtain c1 where
      1: "(c1, p + length u, v @ s) \<in> set (f (c, p, u @ v @ s))" by blast
    from star_App.IH [OF k, where c = c1 and p = "p + length u"] obtain c' where
      2: "(c', p + length u + length v, s) \<in> set (rep f k (c1, p + length u, v @ s))" by blast
    from False have "p < p + length u" by simp
    with 1 have "(c1, p + length u, v @ s)
        \<in> set (filter (\<lambda>st'. fst (snd (c, p, u @ v @ s)) < fst (snd st')) (f (c, p, u @ v @ s)))"
      by simp
    with 2 have "(c', p + length u + length v, s) \<in> set (rep f (Suc k) (c, p, u @ v @ s))"
      unfolding rep.simps set_append set_concat set_map by blast
    then show ?thesis by (auto simp: n add.assoc)
  qed
qed

lemma ms_complete:
  "anchor_free r \<Longrightarrow> w \<in> lang r \<Longrightarrow> \<exists>c'. (c', p + length w, s) \<in> set (ms r (c, p, w @ s))"
proof (induction r arbitrary: w c p s)
  case (Seq a b)
  from Seq.prems obtain u v where w: "w = u @ v" and u: "u \<in> lang a" and v: "v \<in> lang b"
    by auto
  from Seq.IH(1) [OF _ u, of p "v @ s" c] Seq.prems(1) obtain c1 where
    1: "(c1, p + length u, v @ s) \<in> set (ms a (c, p, u @ v @ s))" by auto
  from Seq.IH(2) [OF _ v, of "p + length u" s c1] Seq.prems(1) obtain c2 where
    2: "(c2, p + length u + length v, s) \<in> set (ms b (c1, p + length u, v @ s))" by auto
  from 1 2 show ?case by (auto simp: w add.assoc)
next
  case (Star a)
  from rep_complete [of "lang a" "ms a" w s "length (w @ s)" p c] Star
  show ?case by auto
next
  case (Plus a)
  from Plus.prems obtain u v where w: "w = u @ v" and u: "u \<in> lang a"
    and v: "v \<in> star_lang (lang a)" by auto
  from Plus.IH [OF _ u, of p "v @ s" c] Plus.prems(1) obtain c1 where
    1: "(c1, p + length u, v @ s) \<in> set (ms a (c, p, u @ v @ s))" by auto
  from rep_complete [of "lang a" "ms a" v s "length (v @ s)" "p + length u" c1, OF _ v]
    Plus.IH Plus.prems(1) obtain c2 where
    2: "(c2, p + length u + length v, s) \<in> set (rep (ms a) (length (v @ s)) (c1, p + length u, v @ s))"
    by auto
  have "\<exists>x \<in> set (ms a (c, p, u @ v @ s)).
      (c2, p + length u + length v, s) \<in> set (rep (ms a) (length (snd (snd x))) x)"
    by (rule bexI [OF _ 1]) (use 2 in simp)
  then show ?case by (auto simp: w add.assoc)
next
  case (Group n a)
  from Group.IH [of w p s c] Group.prems obtain c1 where
    "(c1, p + length w, s) \<in> set (ms a (c, p, w @ s))" by auto
  then have "capture n (c, p, w @ s) (c1, p + length w, s) \<in> set (ms (Group n a) (c, p, w @ s))"
    unfolding ms.simps set_map by (rule imageI)
  then show ?case by (simp del: ms.simps) blast
next
  case (Alt a b)
  from Alt.prems Alt.IH(1) [of w p s c] Alt.IH(2) [of w p s c] show ?case by auto
next
  case (Opt a)
  from Opt.prems Opt.IH [of w p s c] show ?case by auto
qed auto

section \<open>Facts about the matcher\<close>

text \<open>
  \<open>msk r k st\<close> runs the continuation \<open>k\<close> from every state in which \<open>r\<close> can end. It
  is only used to reason about \<open>ms\<close>.
\<close>

definition msk :: "regex \<Rightarrow> (mstate \<Rightarrow> mstate list) \<Rightarrow> mstate \<Rightarrow> mstate list" where
  "msk r k st = concat (map k (ms r st))"

lemma concat_map_concat:
  "concat (map f (concat xss)) = concat (map (\<lambda>xs. concat (map f xs)) xss)"
  by (induction xss) simp_all

lemma ms_msk: "ms r st = msk r (\<lambda>x. [x]) st"
  by (simp add: msk_def)

lemma ms_Seq_msk: "ms (Seq a b) st = msk a (ms b) st"
  by (simp add: msk_def)

lemma msk_Seq: "msk (Seq a b) k st = msk a (msk b k) st"
  by (simp add: msk_def [abs_def] concat_map_concat comp_def)

lemma msk_Alt: "msk (Alt a b) k st = msk a k st @ msk b k st"
  by (simp add: msk_def)

lemma msk_Opt: "msk (Opt a) k st = msk a k st @ k st"
  by (simp add: msk_def)

lemma msk_Group: "msk (Group n a) k st = msk a (\<lambda>st'. k (capture n st st')) st"
  by (simp add: msk_def comp_def)

lemma msk_BeginText: "msk BeginText k (c, p, s) = (if p = 0 then k (c, p, s) else [])"
  by (simp add: msk_def)

lemma msk_EndText: "msk EndText k (c, p, s) = (if s = [] then k (c, p, s) else [])"
  by (simp add: msk_def)

lemma msk_one:
  assumes "ms a = one P"
  shows "msk a k (c, p, s) = (case s of [] \<Rightarrow> [] | x # xs \<Rightarrow> if P x then k (c, Suc p, xs) else [])"
  by (cases s) (simp_all add: msk_def assms)

lemma ms_Lit_one: "ms (Lit a) = one (\<lambda>x. x = a)"
  by (rule ext) simp

lemma ms_OneOf_one: "ms (OneOf cs) = one (\<lambda>x. x \<in> set cs)"
  by (rule ext) simp

lemma ms_NoneOf_one: "ms (NoneOf cs) = one (\<lambda>x. x \<notin> set cs)"
  by (rule ext) simp

lemma rep_one_Nil: "rep (one P) n (c, p, []) = [(c, p, [])]"
  by (cases n) simp_all

lemma rep_one_skip:
  assumes "\<And>p' x xs. P x \<Longrightarrow> k (c, p', x # xs) = []"
  shows "length s \<le> n \<Longrightarrow>
    concat (map k (rep (one P) n (c, p, s))) = k (c, p + length (takeWhile P s), dropWhile P s)"
proof (induction s arbitrary: n p)
  case Nil
  then show ?case by (simp add: rep_one_Nil)
next
  case (Cons x xs)
  then obtain m where n: "n = Suc m" and m: "length xs \<le> m"
    by (cases n) auto
  show ?case
  proof (cases "P x")
    case True
    then show ?thesis using Cons.IH [OF m, of "Suc p"] assms [OF True] by (simp add: n)
  next
    case False
    then show ?thesis by (simp add: n)
  qed
qed

lemma rep_one_hd:
  "length s \<le> n \<Longrightarrow>
    \<exists>tl. rep (one P) n (c, p, s) = (c, p + length (takeWhile P s), dropWhile P s) # tl"
proof (induction s arbitrary: n p)
  case Nil
  then show ?case by (simp add: rep_one_Nil)
next
  case (Cons x xs)
  then obtain m where n: "n = Suc m" and m: "length xs \<le> m"
    by (cases n) auto
  show ?case
  proof (cases "P x")
    case True
    from Cons.IH [OF m, of "Suc p"] obtain tl where
      "rep (one P) m (c, Suc p, xs) = (c, Suc p + length (takeWhile P xs), dropWhile P xs) # tl"
      by blast
    with True show ?thesis by (simp add: n)
  next
    case False
    then show ?thesis by (simp add: n)
  qed
qed

lemma msk_Star_skip:
  assumes "ms a = one P" and "\<And>p' x xs. P x \<Longrightarrow> k (c, p', x # xs) = []"
  shows "msk (Star a) k (c, p, s) = k (c, p + length (takeWhile P s), dropWhile P s)"
  using rep_one_skip [of P k c s "length s" p, OF assms(2)] by (simp add: msk_def assms(1))

lemma msk_Plus_skip:
  assumes "ms a = one P" and "\<And>p' x xs. P x \<Longrightarrow> k (c, p', x # xs) = []"
  shows "msk (Plus a) k (c, p, s) =
    (if takeWhile P s = [] then [] else k (c, p + length (takeWhile P s), dropWhile P s))"
proof (cases s)
  case Nil
  then show ?thesis by (simp add: msk_def assms(1))
next
  case (Cons x xs)
  show ?thesis
    using rep_one_skip [of P k c xs "length xs" "Suc p", OF assms(2)]
    by (simp add: msk_def assms(1) Cons)
qed

lemma ms_Star_hd:
  assumes "ms a = one P"
  shows "\<exists>tl. ms (Star a) (c, p, s) = (c, p + length (takeWhile P s), dropWhile P s) # tl"
  using rep_one_hd [of s "length s" P c p] by (simp add: assms)

lemma ms_Plus_hd:
  assumes "ms a = one P"
  shows "takeWhile P s \<noteq> [] \<Longrightarrow> \<exists>tl. ms (Plus a) (c, p, s) = (c, p + length (takeWhile P s), dropWhile P s) # tl"
   and "takeWhile P s = [] \<Longrightarrow> ms (Plus a) (c, p, s) = []"
proof -
  show "takeWhile P s = [] \<Longrightarrow> ms (Plus a) (c, p, s) = []"
    by (cases s) (simp_all add: assms split: if_splits)
  assume ne: "takeWhile P s \<noteq> []"
  then obtain x xs where s: "s = x # xs" and x: "P x"
    by (cases s) (auto split: if_splits)
  from rep_one_hd [of xs "length xs" P c "Suc p"] obtain tl where
    "rep (one P) (length xs) (c, Suc p, xs) = (c, Suc p + length (takeWhile P xs), dropWhile P xs) # tl"
    by blast
  then show "\<exists>tl. ms (Plus a) (c, p, s) = (c, p + length (takeWhile P s), dropWhile P s) # tl"
    by (simp add: assms s x)
qed

subsection \<open>Anchored patterns\<close>

lemma search_anchored_later: "search (anchoredPattern r) (Suc p) s = None"
  by (induction s arbitrary: p) (simp_all add: anchoredPattern_def)

lemma regex_match_anchored:
  "regex_match (anchoredPattern r) s 0 =
     (case ms (anchoredPattern r) ([], 0, s) of
        [] \<Rightarrow> None
      | (c, e, t) # other \<Rightarrow> Some \<lparr>capturedStart = 0, capturedEnd = e, captures = c\<rparr>)"
  by (cases s) (simp_all add: regex_match_def search_anchored_later split: list.splits)

lemma ms_anchored: "ms (anchoredPattern r) (c, 0, s) = msk r (ms EndText) (c, 0, s)"
  by (simp add: anchoredPattern_def msk_def)

abbreviation (input) star :: "char \<Rightarrow> bool" where "star \<equiv> (\<lambda>x. x = CHR ''*'')"

abbreviation (input) nostar :: "char \<Rightarrow> bool" where "nostar \<equiv> (\<lambda>x. x \<noteq> CHR ''*'')"

lemma ms_star: "ms (OneOf ''*'') = one (\<lambda>x. x = CHR ''*'')"
  by (rule ext) simp

lemma ms_nostar: "ms (NoneOf ''*'') = one (\<lambda>x. x \<noteq> CHR ''*'')"
  by (rule ext) simp

lemma stars_end:
  "msk (Plus (OneOf ''*'')) (ms EndText) (c, p, s) =
     (if takeWhile star s = [] \<or> dropWhile star s \<noteq> [] then []
      else [(c, p + length (takeWhile star s), [])])"
proof -
  have "msk (Plus (OneOf ''*'')) (ms EndText) (c, p, s) =
     (if takeWhile star s = [] then []
      else ms EndText (c, p + length (takeWhile star s), dropWhile star s))"
    by (rule msk_Plus_skip [OF ms_star]) simp
  then show ?thesis by simp
qed

lemma stars_dot_stars_end:
  "msk (Seq (Plus (OneOf ''*'')) (Seq (Lit CHR ''.'') (Plus (OneOf ''*'')))) (ms EndText) (c, p, s) \<noteq> [] \<longleftrightarrow>
     takeWhile star s \<noteq> [] \<and>
     (\<exists>b. dropWhile star s = CHR ''.'' # b \<and> takeWhile star b \<noteq> [] \<and> dropWhile star b = [])"
proof -
  let ?k = "msk (Seq (Lit CHR ''.'') (Plus (OneOf ''*''))) (ms EndText)"
  have k: "?k (c, p, t) =
      (case t of [] \<Rightarrow> [] | x # b \<Rightarrow>
         if x = CHR ''.'' then msk (Plus (OneOf ''*'')) (ms EndText) (c, Suc p, b) else [])"
    for c p t
    by (simp add: msk_Seq msk_one [OF ms_Lit_one])
  have "msk (Plus (OneOf ''*'')) ?k (c, p, s) =
     (if takeWhile star s = [] then []
      else ?k (c, p + length (takeWhile star s), dropWhile star s))"
    by (rule msk_Plus_skip [OF ms_star]) (simp add: k)
  then show ?thesis
    by (cases "dropWhile star s")
       (simp_all add: msk_Seq [of "Plus _"] k stars_end del: dropWhile_eq_Nil_conv)
qed

lemma acceptAll_hasMatch:
  "regex_match qtAcceptAllRegex s 0 \<noteq> None \<longleftrightarrow>
     takeWhile star s \<noteq> [] \<and>
     (dropWhile star s = [] \<or>
      (\<exists>b. dropWhile star s = CHR ''.'' # b \<and> takeWhile star b \<noteq> [] \<and> dropWhile star b = []))"
proof -
  have "regex_match qtAcceptAllRegex s 0 \<noteq> None \<longleftrightarrow> ms qtAcceptAllRegex ([], 0, s) \<noteq> []"
    by (simp add: qtAcceptAllRegex_def regex_match_anchored split: list.splits)
  also have "\<dots> \<longleftrightarrow> msk (Plus (OneOf ''*'')) (ms EndText) ([], 0, s) \<noteq> [] \<or>
      msk (Seq (Plus (OneOf ''*'')) (Seq (Lit CHR ''.'') (Plus (OneOf ''*'')))) (ms EndText) ([], 0, s) \<noteq> []"
    by (simp add: qtAcceptAllRegex_def ms_anchored msk_Alt)
  also have "\<dots> \<longleftrightarrow> takeWhile star s \<noteq> [] \<and>
     (dropWhile star s = [] \<or>
      (\<exists>b. dropWhile star s = CHR ''.'' # b \<and> takeWhile star b \<noteq> [] \<and> dropWhile star b = []))"
    unfolding stars_dot_stars_end stars_end
    by (cases "dropWhile star s") (simp_all del: dropWhile_eq_Nil_conv)
  finally show ?thesis .
qed

subsection \<open>The extension pattern\<close>

definition ext_body :: "string \<Rightarrow> bool" where
  "ext_body e \<longleftrightarrow> e \<noteq> [] \<and> CHR ''*'' \<notin> set e"

lemma dot_nostar_end:
  "msk (Group 2 (Seq (Lit CHR ''.'') (Plus (NoneOf ''*'')))) (ms EndText) (c, p, t) =
     (case t of [] \<Rightarrow> []
      | x # e \<Rightarrow> if x = CHR ''.'' \<and> ext_body e then [((2, t) # c, p + length t, [])] else [])"
proof -
  define K where "K = (\<lambda>st'. ms EndText (capture 2 (c, p, t) st'))"
  have K_skip: "K (c', p', x # xs) = []" for c' p' x xs
    by (simp add: K_def)
  have K_end: "K (c', p', []) = [((2, take (p' - p) t) # c', p', [])]" for c' p'
    by (simp add: K_def)
  have plus: "msk (Plus (NoneOf ''*'')) K (c, q, e) =
     (if takeWhile nostar e = [] then []
      else K (c, q + length (takeWhile nostar e), dropWhile nostar e))" for q e
    by (rule msk_Plus_skip [OF ms_nostar]) (simp add: K_skip)
  have start: "msk (Group 2 (Seq (Lit CHR ''.'') (Plus (NoneOf ''*'')))) (ms EndText) (c, p, t) =
     (case t of [] \<Rightarrow> [] | x # e \<Rightarrow> if x = CHR ''.'' then msk (Plus (NoneOf ''*'')) K (c, Suc p, e) else [])"
    unfolding msk_Group K_def [symmetric] msk_Seq by (simp add: msk_one [OF ms_Lit_one])
  show ?thesis
  proof (cases t)
    case Nil
    then show ?thesis unfolding start by simp
  next
    case (Cons x e)
    show ?thesis
    proof (cases "x = CHR ''.'' \<and> ext_body e")
      case True
      then have tw: "takeWhile nostar e = e" and dw: "dropWhile nostar e = []" and ne: "e \<noteq> []"
        by (auto simp: ext_body_def takeWhile_eq_all_conv)
      from True ne show ?thesis
        unfolding start by (simp add: Cons plus tw dw K_end)
    next
      case False
      then have "x \<noteq> CHR ''.'' \<or> takeWhile nostar e = [] \<or> dropWhile nostar e \<noteq> []"
        by (cases e) (auto simp: ext_body_def)
      then have "x \<noteq> CHR ''.'' \<or> msk (Plus (NoneOf ''*'')) K (c, Suc p, e) = []"
        unfolding plus by (cases "dropWhile nostar e") (auto simp: K_skip)
      with False show ?thesis
        unfolding start by (auto simp add: Cons)
    qed
  qed
qed

lemma filename_ms:
  "ms qtFilenameMatcherRegex ([], 0, s) =
     (case s of [] \<Rightarrow> []
      | x # t \<Rightarrow>
          if x = CHR ''*'' then
            (case t of [] \<Rightarrow> []
             | y # e \<Rightarrow> if y = CHR ''.'' \<and> ext_body e then [([(2, t), (1, ''*'')], length s, [])] else [])
          else if x = CHR ''.'' \<and> ext_body t then [([(2, s), (1, [])], length s, [])] else [])"
proof -
  define K where "K = msk (Group 2 (Seq (Lit CHR ''.'') (Plus (NoneOf ''*'')))) (ms EndText)"
  have "ms qtFilenameMatcherRegex ([], 0, s) =
      (case s of [] \<Rightarrow> [] | x # t \<Rightarrow> if x = CHR ''*'' then K ([(1, ''*'')], Suc 0, t) else [])
      @ K ([(1, [])], 0, s)"
    unfolding qtFilenameMatcherRegex_def ms_anchored msk_Seq K_def [symmetric]
    by (simp add: msk_Group msk_Opt msk_one [OF ms_Lit_one] split: list.splits)
  then show ?thesis
    unfolding K_def dot_nostar_end
    by (auto split: list.splits)
qed

lemma acceptAll_no_ext:
  assumes "ext_body e"
  shows "regex_match qtAcceptAllRegex (CHR ''.'' # e) 0 = None"
    and "regex_match qtAcceptAllRegex (CHR ''*'' # CHR ''.'' # e) 0 = None"
proof -
  from assms obtain y e' where "e = y # e'" "y \<noteq> CHR ''*''"
    by (cases e) (auto simp: ext_body_def)
  then have "\<not> regex_match qtAcceptAllRegex (CHR ''.'' # e) 0 \<noteq> None"
    "\<not> regex_match qtAcceptAllRegex (CHR ''*'' # CHR ''.'' # e) 0 \<noteq> None"
    unfolding acceptAll_hasMatch by simp_all
  then show "regex_match qtAcceptAllRegex (CHR ''.'' # e) 0 = None"
    and "regex_match qtAcceptAllRegex (CHR ''*'' # CHR ''.'' # e) 0 = None"
    by simp_all
qed

lemma Extension_fromQt_Some_iff:
  "Extension_fromQt t = Some v \<longleftrightarrow>
     (\<exists>e. ext_body e \<and> (t = CHR ''.'' # e \<or> t = CHR ''*'' # CHR ''.'' # e) \<and> v = Str (CHR ''.'' # e))"
proof
  assume "Extension_fromQt t = Some v"
  then have na: "regex_match qtAcceptAllRegex t 0 = None"
    and m: "(case regex_match qtFilenameMatcherRegex t 0 of
             Some extensionMatch \<Rightarrow> Some (Extension (capturedView extensionMatch 2))
           | None \<Rightarrow> None) = Some v"
    by (auto simp: Extension_fromQt_def split: if_splits)
  from m show "\<exists>e. ext_body e \<and> (t = CHR ''.'' # e \<or> t = CHR ''*'' # CHR ''.'' # e) \<and> v = Str (CHR ''.'' # e)"
    unfolding qtFilenameMatcherRegex_def regex_match_anchored
    unfolding qtFilenameMatcherRegex_def [symmetric] filename_ms
    by (auto simp: capturedView_def Extension_def split: list.splits if_splits)
next
  assume "\<exists>e. ext_body e \<and> (t = CHR ''.'' # e \<or> t = CHR ''*'' # CHR ''.'' # e) \<and> v = Str (CHR ''.'' # e)"
  then obtain e where e: "ext_body e" and t: "t = CHR ''.'' # e \<or> t = CHR ''*'' # CHR ''.'' # e"
    and v: "v = Str (CHR ''.'' # e)" by blast
  have na: "regex_match qtAcceptAllRegex t 0 = None"
    using t acceptAll_no_ext [OF e] by auto
  have "regex_match qtFilenameMatcherRegex t 0 =
     Some \<lparr>capturedStart = 0, capturedEnd = length t, captures = [(2, CHR ''.'' # e), (1, if t = CHR ''.'' # e then [] else ''*'')]\<rparr>"
    unfolding qtFilenameMatcherRegex_def regex_match_anchored
    unfolding qtFilenameMatcherRegex_def [symmetric] filename_ms
    using t e by auto
  then show "Extension_fromQt t = Some v"
    by (simp add: Extension_fromQt_def na capturedView_def Extension_def v)
qed

subsection \<open>The token pattern\<close>

abbreviation (input) ws :: "char \<Rightarrow> bool" where "ws \<equiv> (\<lambda>x. x \<in> set space_class)"

abbreviation (input) nws :: "char \<Rightarrow> bool" where "nws \<equiv> (\<lambda>x. x \<notin> set space_class)"

lemma internal_ms_Nil:
  assumes "takeWhile nws s = []"
  shows "ms internalRegex (c, p, s) = []"
  using ms_Plus_hd(2) [OF ms_NoneOf_one assms, of c p]
  by (simp add: internalRegex_def del: ms.simps(8))

lemma internal_ms_hd:
  assumes "takeWhile nws s \<noteq> []"
  shows "\<exists>tl. ms internalRegex (c, p, s) =
     ((1, takeWhile nws s) # c,
      p + length (takeWhile nws s) + length (takeWhile ws (dropWhile nws s)),
      dropWhile ws (dropWhile nws s)) # tl"
proof -
  from ms_Plus_hd(1) [OF ms_NoneOf_one assms, of c p] obtain tl1 where
    1: "ms (Plus (NoneOf space_class)) (c, p, s) =
          (c, p + length (takeWhile nws s), dropWhile nws s) # tl1"
    by blast
  have tk: "take (length (takeWhile nws s)) s = takeWhile nws s"
    by (metis append_eq_conv_conj takeWhile_dropWhile_id)
  from ms_Star_hd [OF ms_OneOf_one, of space_class "(1, takeWhile nws s) # c"
      "p + length (takeWhile nws s)" "dropWhile nws s"]
  obtain tl2 where
    2: "ms (Star (OneOf space_class))
          ((1, takeWhile nws s) # c, p + length (takeWhile nws s), dropWhile nws s) =
        ((1, takeWhile nws s) # c,
          p + length (takeWhile nws s) + length (takeWhile ws (dropWhile nws s)),
          dropWhile ws (dropWhile nws s)) # tl2"
    by blast
  show ?thesis
    unfolding internalRegex_def ms.simps(4) ms.simps(9) 1
    using 2 by (simp add: tk del: ms.simps)
qed

lemma search_internal:
  "search internalRegex p s =
     (case dropWhile ws s of
        [] \<Rightarrow> None
      | y # ys \<Rightarrow>
          Some \<lparr>capturedStart = p + length (takeWhile ws s),
                capturedEnd = p + length (takeWhile ws s) + length (takeWhile nws (y # ys))
                  + length (takeWhile ws (dropWhile nws (y # ys))),
                captures = [(1, takeWhile nws (y # ys))]\<rparr>)"
proof (induction s arbitrary: p)
  case Nil
  then show ?case by (simp add: internal_ms_Nil)
next
  case (Cons x xs)
  show ?case
  proof (cases "ws x")
    case True
    then have "ms internalRegex ([], p, x # xs) = []"
      by (intro internal_ms_Nil) simp
    with True show ?thesis
      by (cases "dropWhile ws xs") (simp_all add: Cons.IH del: dropWhile_eq_Nil_conv)
  next
    case False
    then have ne: "takeWhile nws (x # xs) \<noteq> []" by simp
    from internal_ms_hd [OF ne, of "[]" p] obtain tl where
      "ms internalRegex ([], p, x # xs) =
         ([(1, takeWhile nws (x # xs))],
          p + length (takeWhile nws (x # xs)) + length (takeWhile ws (dropWhile nws (x # xs))),
          dropWhile ws (dropWhile nws (x # xs))) # tl"
      by blast
    with False show ?thesis by simp
  qed
qed

lemma regex_match_internal_bounds:
  assumes "regex_match internalRegex q off = Some m"
  shows "off < capturedEnd m \<and> capturedEnd m \<le> length q"
proof -
  from assms have off: "off \<le> length q"
    and s: "search internalRegex off (drop off q) = Some m"
    by (auto simp: regex_match_def split: if_splits)
  from s obtain y ys where d: "dropWhile ws (drop off q) = y # ys"
    and e: "capturedEnd m = off + length (takeWhile ws (drop off q)) + length (takeWhile nws (y # ys))
                  + length (takeWhile ws (dropWhile nws (y # ys)))"
    unfolding search_internal by (auto split: list.splits)
  have "\<not> ws y" using d by (metis hd_dropWhile list.sel(1) list.distinct(1))
  then have pos: "0 < length (takeWhile nws (y # ys))" by simp
  have "length (takeWhile ws (drop off q)) + length (y # ys) = length (drop off q)"
    using d by (metis length_append takeWhile_dropWhile_id)
  moreover have "length (takeWhile nws (y # ys)) + length (dropWhile nws (y # ys)) = length (y # ys)"
    by (metis length_append takeWhile_dropWhile_id)
  moreover have "length (takeWhile ws (dropWhile nws (y # ys))) \<le> length (dropWhile nws (y # ys))"
    by (rule length_takeWhile_le)
  ultimately show ?thesis using e pos off by simp
qed

section \<open>The filter translator, continued\<close>

function Accept_loop :: "string \<Rightarrow> QRegularExpressionMatch option \<Rightarrow> val \<Rightarrow> val option" where
  "Accept_loop qtRepresentation None mimeType = Some mimeType"
| "Accept_loop qtRepresentation (Some internalMatch) mimeType =
     (case Extension_fromQt (capturedView internalMatch 1) of
        None \<Rightarrow> None
      | Some webExtension \<Rightarrow>
          Accept_loop qtRepresentation
            (regex_match internalRegex qtRepresentation (capturedEnd internalMatch))
            (addExtension mimeType webExtension))"
  by pat_completeness auto
termination
proof (relation "measure (\<lambda>(q, im, mt). case im of None \<Rightarrow> 0 | Some m \<Rightarrow> Suc (length q - capturedEnd m))")
  show "wf (measure (\<lambda>(q, im, mt). case im of None \<Rightarrow> 0 | Some m \<Rightarrow> Suc (length q - capturedEnd m)))"
    by simp
next
  fix qtRepresentation :: string and internalMatch mimeType x2
  show "((qtRepresentation,
          regex_match internalRegex qtRepresentation (capturedEnd internalMatch),
          addExtension mimeType x2),
         qtRepresentation, Some internalMatch, mimeType)
       \<in> measure (\<lambda>(q, im, mt). case im of None \<Rightarrow> 0 | Some m \<Rightarrow> Suc (length q - capturedEnd m))"
  proof (cases "regex_match internalRegex qtRepresentation (capturedEnd internalMatch)")
    case None
    then show ?thesis by simp
  next
    case (Some m')
    from regex_match_internal_bounds [OF Some] show ?thesis
      by (simp add: Some diff_less_mono2)
  qed
qed

definition Accept_fromQt :: "string \<Rightarrow> val option" where
  "Accept_fromQt qtRepresentation =
     (case Accept_loop qtRepresentation (regex_match internalRegex qtRepresentation 0) MimeType of
        None \<Rightarrow> None
      | Some mimeType \<Rightarrow> Some (addMimeType Accept mimeType))"

definition Type_fromQt :: "string \<Rightarrow> val option" where
  "Type_fromQt type =
     (case regex_match type_regex type 0 of
        None \<Rightarrow> None
      | Some match \<Rightarrow>
          let description = (if hasCaptured match 1 then capturedView match 1 else []);
              filterList = capturedView match (if hasCaptured match 2 then 2 else 3)
          in case Accept_fromQt filterList of
               None \<Rightarrow> None
             | Some accept \<Rightarrow> Some (Type description (Some accept)))"

definition qtFilterListToTypes :: "string list \<Rightarrow> val option" where
  "qtFilterListToTypes filterList =
     (let types = fold (\<lambda>fileFilter types.
                          case Type_fromQt fileFilter of
                            Some type \<Rightarrow> val_push types type
                          | None \<Rightarrow> types)
                       filterList (Array [])
      in if val_length types = 0 then None else Some types)"

definition makeOpenFileOptions :: "string list \<Rightarrow> bool \<Rightarrow> val" where
  "makeOpenFileOptions filterList acceptMultiple =
     (let options = Object [];
          options = (case qtFilterListToTypes filterList of
                       Some typeList \<Rightarrow>
                         val_set (val_set options ''types'' typeList)
                           ''excludeAcceptAllOption'' (Bool True)
                     | None \<Rightarrow> options)
      in val_set options ''multiple'' (Bool acceptMultiple))"

definition makeSaveFileOptions :: "string list \<Rightarrow> string \<Rightarrow> val" where
  "makeSaveFileOptions filterList suggestedName =
     (let options = Object [];
          options = (if suggestedName \<noteq> [] then val_set options ''suggestedName'' (Str suggestedName)
                     else options);
          options = (case qtFilterListToTypes filterList of
                       Some typeList \<Rightarrow> val_set options ''types'' typeList
                     | None \<Rightarrow> options)
      in options)"

section \<open>Notions of the specification\<close>

text \<open>
  The specification's reading of the extension list: the text is split on runs of white
  space; white space at either end is ignored and no token is empty.
\<close>

function tokens :: "string \<Rightarrow> string list" where
  "tokens [] = []"
| "tokens (x # xs) =
     (if x \<in> set space_class then tokens xs
      else takeWhile (\<lambda>c. c \<notin> set space_class) (x # xs)
             # tokens (dropWhile (\<lambda>c. c \<notin> set space_class) xs))"
  by pat_completeness auto
termination
  by (relation "measure length") (auto simp: less_Suc_eq_le length_dropWhile_le)

text \<open>The file types of the specs that are accepted, in the order of the specs.\<close>

definition parsed_types :: "string list \<Rightarrow> val list" where
  "parsed_types filterList =
     map (\<lambda>s. the (Type_fromQt s)) (filter (\<lambda>s. Type_fromQt s \<noteq> None) filterList)"

text \<open>The invariant that the specification states for an extension.\<close>

definition extension_ok :: "string \<Rightarrow> bool" where
  "extension_ok e \<longleftrightarrow> e \<noteq> [] \<and> hd e = CHR ''.'' \<and> CHR ''*'' \<notin> set e"

section \<open>Splitting into tokens\<close>

lemma tokens_dropWhile_ws: "tokens (dropWhile ws s) = tokens s"
  by (induction s) simp_all

lemma tokens_no_token: "dropWhile ws s = [] \<Longrightarrow> tokens s = []"
  using tokens_dropWhile_ws [of s] by (simp del: dropWhile_eq_Nil_conv)

lemma tokens_first:
  assumes "dropWhile ws s = y # ys"
  shows "tokens s = takeWhile nws (y # ys) # tokens (dropWhile ws (dropWhile nws (y # ys)))"
proof -
  have "\<not> ws y" using assms by (metis hd_dropWhile list.sel(1) list.distinct(1))
  then have "tokens (y # ys) = takeWhile nws (y # ys) # tokens (dropWhile nws (y # ys))"
    by simp
  then show ?thesis
    using tokens_dropWhile_ws [of s] by (simp add: assms tokens_dropWhile_ws del: tokens.simps)
qed

lemma regex_match_internal:
  assumes "off \<le> length q"
  shows "regex_match internalRegex q off =
     (case dropWhile ws (drop off q) of
        [] \<Rightarrow> None
      | y # ys \<Rightarrow>
          Some \<lparr>capturedStart = off + length (takeWhile ws (drop off q)),
                capturedEnd = off + length (takeWhile ws (drop off q)) + length (takeWhile nws (y # ys))
                  + length (takeWhile ws (dropWhile nws (y # ys))),
                captures = [(1, takeWhile nws (y # ys))]\<rparr>)"
  using assms by (simp add: regex_match_def search_internal)

lemma drop_after_token:
  assumes "dropWhile ws (drop off q) = y # ys"
  shows "drop (off + length (takeWhile ws (drop off q)) + length (takeWhile nws (y # ys))
                  + length (takeWhile ws (dropWhile nws (y # ys)))) q
         = dropWhile ws (dropWhile nws (y # ys))"
proof -
  have "drop (off + length (takeWhile ws (drop off q)) + length (takeWhile nws (y # ys))
                  + length (takeWhile ws (dropWhile nws (y # ys)))) q
      = drop (length (takeWhile ws (dropWhile nws (y # ys))))
          (drop (length (takeWhile nws (y # ys)))
            (drop (length (takeWhile ws (drop off q))) (drop off q)))"
    by (simp add: add.commute add.left_commute)
  also have "\<dots> = dropWhile ws (dropWhile nws (y # ys))"
    unfolding dropWhile_eq_drop [symmetric] assms ..
  finally show ?thesis .
qed

lemma Accept_loop_tokens:
  "off \<le> length q \<Longrightarrow>
   Accept_loop q (regex_match internalRegex q off) (Array acc) =
     (if \<forall>t \<in> set (tokens (drop off q)). Extension_fromQt t \<noteq> None
      then Some (Array (acc @ map (\<lambda>t. the (Extension_fromQt t)) (tokens (drop off q))))
      else None)"
proof (induction "length q - off" arbitrary: off acc rule: less_induct)
  case less
  show ?case
  proof (cases "dropWhile ws (drop off q)")
    case Nil
    then show ?thesis
      by (simp add: regex_match_internal [OF less.prems] tokens_no_token del: dropWhile_eq_Nil_conv)
  next
    case (Cons y ys)
    define tok where "tok = takeWhile nws (y # ys)"
    define e where "e = off + length (takeWhile ws (drop off q)) + length (takeWhile nws (y # ys))
                  + length (takeWhile ws (dropWhile nws (y # ys)))"
    define m where "m = \<lparr>capturedStart = off + length (takeWhile ws (drop off q)),
                capturedEnd = e, captures = [(1, tok)]\<rparr>"
    have rm: "regex_match internalRegex q off = Some m"
      unfolding regex_match_internal [OF less.prems] Cons m_def e_def tok_def by simp
    from regex_match_internal_bounds [OF rm] have b: "off < e" "e \<le> length q"
      by (simp_all add: m_def)
    have rest: "drop e q = dropWhile ws (dropWhile nws (y # ys))"
      unfolding e_def by (rule drop_after_token [OF Cons])
    have tk: "tokens (drop off q) = tok # tokens (drop e q)"
      unfolding rest tok_def by (rule tokens_first [OF Cons])
    have cv: "capturedView m (Suc 0) = tok" "capturedEnd m = e"
      by (simp_all add: m_def capturedView_def)
    show ?thesis
    proof (cases "Extension_fromQt tok")
      case None
      then show ?thesis by (simp add: rm cv tk)
    next
      case (Some ext)
      have "length q - e < length q - off" using b by simp
      from less.hyps [OF this b(2), of "acc @ [ext]"] Some
      show ?thesis by (simp add: rm cv tk addExtension_def)
    qed
  qed
qed

lemma Accept_fromQt_tokens:
  "Accept_fromQt q =
     (if \<forall>t \<in> set (tokens q). Extension_fromQt t \<noteq> None
      then Some (Object [(''application/octet-stream'',
                  Array (map (\<lambda>t. the (Extension_fromQt t)) (tokens q)))])
      else None)"
  using Accept_loop_tokens [of 0 q "[]"]
  by (simp add: Accept_fromQt_def MimeType_def Accept_def addMimeType_def)

section \<open>The file type pattern\<close>

abbreviation (input) noopen :: "char \<Rightarrow> bool" where "noopen \<equiv> (\<lambda>x. x \<noteq> CHR ''('')"

abbreviation (input) noclose :: "char \<Rightarrow> bool" where "noclose \<equiv> (\<lambda>x. x \<noteq> CHR '')'')"

abbreviation (input) noparen :: "char \<Rightarrow> bool" where
  "noparen \<equiv> (\<lambda>x. x \<noteq> CHR ''('' \<and> x \<noteq> CHR '')'')"

lemma ms_noopen: "ms (NoneOf ''('') = one noopen"
  by (rule ext) simp

lemma ms_noclose: "ms (NoneOf '')'') = one noclose"
  by (rule ext) simp

lemma noparen_set: "(\<lambda>x. x \<notin> set ''()'') = noparen"
  by (rule ext) simp

lemma ms_noparen: "ms (NoneOf ''()'') = one noparen"
  unfolding noparen_set [symmetric] by (rule ext) (simp only: ms.simps)

lemma take_takeWhile: "take (length (takeWhile P s)) s = takeWhile P s"
  by (metis append_eq_conv_conj takeWhile_dropWhile_id)

definition type_alt1 :: regex where
  "type_alt1 = Seq (Group 1 (Star (NoneOf ''('')))
            (Seq (Lit CHR ''('')
              (Seq (Group 2 (Plus (NoneOf ''()'')))
                (Seq (Lit CHR '')'') (Star (NoneOf '')'')))))"

definition paren_groups :: "string \<Rightarrow> (string \<times> string) option" where
  "paren_groups s =
     (case dropWhile noopen s of
        [] \<Rightarrow> None
      | x # s2 \<Rightarrow>
          (case dropWhile noparen s2 of
             [] \<Rightarrow> None
           | y # s4 \<Rightarrow>
               if y = CHR '')'' \<and> takeWhile noparen s2 \<noteq> []
               then Some (takeWhile noopen s, takeWhile noparen s2) else None))"

lemma close_tail:
  "ms (Seq (Lit CHR '')'') (Star (NoneOf '')''))) (c, p, s) =
     (case s of [] \<Rightarrow> [] | y # s4 \<Rightarrow> if y = CHR '')'' then ms (Star (NoneOf '')'')) (c, Suc p, s4) else [])"
  unfolding ms_Seq_msk by (simp add: msk_one [OF ms_Lit_one] del: ms.simps)

lemma group2_tail:
  "ms (Seq (Group 2 (Plus (NoneOf ''()''))) (Seq (Lit CHR '')'') (Star (NoneOf '')'')))) (c, p, s) =
     (if takeWhile noparen s = [] then []
      else case dropWhile noparen s of
             [] \<Rightarrow> []
           | y # s4 \<Rightarrow>
               if y = CHR '')''
               then ms (Star (NoneOf '')''))
                      ((2, takeWhile noparen s) # c, Suc (p + length (takeWhile noparen s)), s4)
               else [])"
proof -
  define K where "K = (\<lambda>st'. ms (Seq (Lit CHR '')'') (Star (NoneOf '')''))) (capture 2 (c, p, s) st'))"
  have K: "K (c', p', t) =
     (case t of [] \<Rightarrow> [] | y # s4 \<Rightarrow>
        if y = CHR '')'' then ms (Star (NoneOf '')'')) ((2, take (p' - p) s) # c', Suc p', s4) else [])"
    for c' p' t
    unfolding K_def capture.simps close_tail ..
  have "msk (Plus (NoneOf ''()'')) K (c, p, s) =
     (if takeWhile noparen s = [] then []
      else K (c, p + length (takeWhile noparen s), dropWhile noparen s))"
    by (rule msk_Plus_skip [OF ms_noparen]) (simp add: K del: ms.simps)
  then show ?thesis
    unfolding ms_Seq_msk [of "Group _ _"] msk_Group K_def [symmetric]
    by (cases "dropWhile noparen s")
       (simp_all add: K take_takeWhile del: ms.simps dropWhile_eq_Nil_conv takeWhile_eq_Nil_iff)
qed

lemma type_alt1_ms:
  "ms type_alt1 (c, p, s) =
     (case dropWhile noopen s of
        [] \<Rightarrow> []
      | x # s2 \<Rightarrow>
          if takeWhile noparen s2 = [] then []
          else case dropWhile noparen s2 of
                 [] \<Rightarrow> []
               | y # s4 \<Rightarrow>
                   if y = CHR '')''
                   then ms (Star (NoneOf '')''))
                          ((2, takeWhile noparen s2) # (1, takeWhile noopen s) # c,
                           Suc (Suc (p + length (takeWhile noopen s)) + length (takeWhile noparen s2)), s4)
                   else [])"
proof -
  define R where "R = Seq (Group 2 (Plus (NoneOf ''()''))) (Seq (Lit CHR '')'') (Star (NoneOf '')'')))"
  define K where "K = (\<lambda>st'. ms (Seq (Lit CHR ''('') R) (capture 1 (c, p, s) st'))"
  have K: "K (c', p', t) =
     (case t of [] \<Rightarrow> [] | x # s2 \<Rightarrow>
        if x = CHR ''('' then ms R ((1, take (p' - p) s) # c', Suc p', s2) else [])"
    for c' p' t
    unfolding K_def capture.simps ms_Seq_msk [of "Lit _"]
    by (simp add: msk_one [OF ms_Lit_one] del: ms.simps One_nat_def)
  have star: "msk (Star (NoneOf ''('')) K (c, p, s) =
      K (c, p + length (takeWhile noopen s), dropWhile noopen s)"
    by (rule msk_Star_skip [OF ms_noopen]) (simp add: K del: ms.simps)
  have hd: "x = CHR ''(''" if "dropWhile noopen s = x # s2" for x s2
    using that hd_dropWhile [of noopen s] by simp
  have start: "ms type_alt1 (c, p, s) = K (c, p + length (takeWhile noopen s), dropWhile noopen s)"
    unfolding type_alt1_def R_def [symmetric] ms_Seq_msk [of "Group _ _"] msk_Group
      K_def [symmetric] star ..
  show ?thesis
  proof (cases "dropWhile noopen s")
    case Nil
    then show ?thesis
      unfolding start K by (simp del: ms.simps dropWhile_eq_Nil_conv)
  next
    case (Cons x s2)
    from hd [OF Cons] have x: "x = CHR ''(''" .
    show ?thesis
      unfolding start K Cons x
      by (simp add: R_def group2_tail take_takeWhile
          del: ms.simps dropWhile_eq_Nil_conv takeWhile_eq_Nil_iff One_nat_def)
  qed
qed

lemma type_alt1_None:
  assumes "paren_groups s = None"
  shows "ms type_alt1 (c, p, s) = []"
proof (cases "dropWhile noopen s")
  case Nil
  then show ?thesis
    unfolding type_alt1_ms by (simp del: ms.simps dropWhile_eq_Nil_conv)
next
  case 1: (Cons x s2)
  show ?thesis
  proof (cases "dropWhile noparen s2")
    case Nil
    then show ?thesis
      unfolding type_alt1_ms by (simp add: 1 del: ms.simps dropWhile_eq_Nil_conv)
  next
    case 2: (Cons y s4)
    from assms have "y \<noteq> CHR '')'' \<or> takeWhile noparen s2 = []"
      unfolding paren_groups_def
      by (simp add: 1 2 del: dropWhile_eq_Nil_conv takeWhile_eq_Nil_iff split: if_splits)
    then show ?thesis
      unfolding type_alt1_ms
      by (auto simp add: 1 2 simp del: ms.simps dropWhile_eq_Nil_conv takeWhile_eq_Nil_iff)
  qed
qed

lemma type_alt1_Some:
  assumes "paren_groups s = Some (g1, g2)"
  shows "\<exists>e t tl. ms type_alt1 (c, p, s) = ((2, g2) # (1, g1) # c, e, t) # tl"
proof -
  from assms obtain x s2 s4 where 1: "dropWhile noopen s = x # s2"
    and 2: "dropWhile noparen s2 = CHR '')'' # s4" and 3: "takeWhile noparen s2 \<noteq> []"
    and g: "g1 = takeWhile noopen s" "g2 = takeWhile noparen s2"
    unfolding paren_groups_def
    by (auto split: list.splits if_splits simp del: dropWhile_eq_Nil_conv takeWhile_eq_Nil_iff)
  from ms_Star_hd [OF ms_noclose] obtain tl where
    "ms (Star (NoneOf '')''))
       ((2, g2) # (1, g1) # c, Suc (Suc (p + length (takeWhile noopen s)) + length (takeWhile noparen s2)), s4)
     = ((2, g2) # (1, g1) # c,
        Suc (Suc (p + length (takeWhile noopen s)) + length (takeWhile noparen s2)) + length (takeWhile noclose s4),
        dropWhile noclose s4) # tl"
    by blast
  then show ?thesis
    unfolding type_alt1_ms g using 3
    by (simp add: 1 2 del: ms.simps dropWhile_eq_Nil_conv takeWhile_eq_Nil_iff One_nat_def)
qed

lemma type_alt2_ms:
  "takeWhile noparen s = [] \<Longrightarrow> ms (Group 3 (Plus (NoneOf ''()''))) (c, p, s) = []"
  "takeWhile noparen s \<noteq> [] \<Longrightarrow>
     \<exists>e t tl. ms (Group 3 (Plus (NoneOf ''()''))) (c, p, s) = ((3, takeWhile noparen s) # c, e, t) # tl"
proof -
  assume "takeWhile noparen s = []"
  from ms_Plus_hd(2) [OF ms_noparen this, of c p]
  show "ms (Group 3 (Plus (NoneOf ''()''))) (c, p, s) = []"
    by (simp del: ms.simps(8))
next
  assume "takeWhile noparen s \<noteq> []"
  from ms_Plus_hd(1) [OF ms_noparen this, of c p] obtain tl where
    "ms (Plus (NoneOf ''()'')) (c, p, s) =
       (c, p + length (takeWhile noparen s), dropWhile noparen s) # tl" by blast
  then show "\<exists>e t tl. ms (Group 3 (Plus (NoneOf ''()''))) (c, p, s) = ((3, takeWhile noparen s) # c, e, t) # tl"
    by (simp add: take_takeWhile del: ms.simps(8))
qed

lemma type_regex_alt: "ms type_regex st = ms type_alt1 st @ ms (Group 3 (Plus (NoneOf ''()''))) st"
  by (simp add: type_regex_def type_alt1_def del: ms.simps(4,8,9))

fun type_captures :: "string \<Rightarrow> (nat \<times> string) list option" where
  "type_captures [] = None"
| "type_captures (x # xs) =
     (case paren_groups (x # xs) of
        Some (g1, g2) \<Rightarrow> Some [(2, g2), (1, g1)]
      | None \<Rightarrow>
          if noparen x then Some [(3, takeWhile noparen (x # xs))] else type_captures xs)"

lemma search_type_regex: "map_option captures (search type_regex p s) = type_captures s"
proof (induction s arbitrary: p)
  case Nil
  have "paren_groups [] = None" by (simp add: paren_groups_def)
  from type_alt1_None [OF this] type_alt2_ms(1) [of "[]"]
  show ?case by (simp add: type_regex_alt del: ms.simps)
next
  case (Cons x xs)
  show ?case
  proof (cases "paren_groups (x # xs)")
    case (Some g)
    obtain g1 g2 where g: "g = (g1, g2)" by (cases g)
    from type_alt1_Some [OF Some [unfolded g], of "[]" p] obtain e t tl where
      "ms type_alt1 ([], p, x # xs) = ([(2, g2), (1, g1)], e, t) # tl" by blast
    then show ?thesis
      by (simp add: type_regex_alt Some g del: ms.simps)
  next
    case None
    note a1 = type_alt1_None [OF None, of "[]" p]
    show ?thesis
    proof (cases "noparen x")
      case True
      then have "takeWhile noparen (x # xs) \<noteq> []" by simp
      from type_alt2_ms(2) [OF this, of "[]" p] obtain e t tl where
        "ms (Group 3 (Plus (NoneOf ''()''))) ([], p, x # xs) = ([(3, takeWhile noparen (x # xs))], e, t) # tl"
        by blast
      with True show ?thesis
        by (simp add: type_regex_alt None a1 del: ms.simps takeWhile.simps)
    next
      case False
      then have "takeWhile noparen (x # xs) = []" by auto
      from type_alt2_ms(1) [OF this, of "[]" p] False show ?thesis
        by (auto simp add: type_regex_alt None a1 Cons.IH simp del: ms.simps)
    qed
  qed
qed

lemma Type_fromQt_captures:
  "Type_fromQt s =
     (case type_captures s of
        None \<Rightarrow> None
      | Some c \<Rightarrow>
          (case Accept_fromQt (case map_of c 2 of Some t \<Rightarrow> t
                                | None \<Rightarrow> (case map_of c 3 of Some t \<Rightarrow> t | None \<Rightarrow> [])) of
             None \<Rightarrow> None
           | Some a \<Rightarrow> Some (Type (case map_of c 1 of Some t \<Rightarrow> t | None \<Rightarrow> []) (Some a))))"
proof (cases "search type_regex 0 s")
  case None
  with search_type_regex [of 0 s] show ?thesis
    by (simp add: Type_fromQt_def regex_match_def)
next
  case (Some m)
  with search_type_regex [of 0 s] have "type_captures s = Some (captures m)" by simp
  then show ?thesis
    by (auto simp add: Type_fromQt_def regex_match_def Some hasCaptured_def capturedView_def Let_def
        split: option.splits)
qed

lemma Type_description: "Type d (Some a) = Object [(''description'', Str (trimmed d)), (''accept'', a)]"
  by (simp add: Type_def)

lemma trimmed_Nil: "trimmed [] = []"
  by (simp add: trimmed_def)

lemma paren_groups_Nil: "paren_groups [] = None"
  by (simp add: paren_groups_def)

lemma Type_fromQt_Nil: "Type_fromQt [] = None"
  by (simp add: Type_fromQt_captures)

lemma Type_fromQt_groups:
  assumes "paren_groups s = Some (g1, g2)"
  shows "Type_fromQt s =
     (case Accept_fromQt g2 of
        None \<Rightarrow> None
      | Some a \<Rightarrow> Some (Object [(''description'', Str (trimmed g1)), (''accept'', a)]))"
proof -
  from assms obtain x xs where s: "s = x # xs"
    by (cases s) (simp_all add: paren_groups_Nil)
  from assms have "type_captures s = Some [(2, g2), (1, g1)]"
    unfolding s by simp
  then show ?thesis
    by (simp add: Type_fromQt_captures Type_description split: option.splits)
qed

lemma paren_groups_shape:
  assumes "CHR ''('' \<notin> set g1" and "g2 \<noteq> []" and "CHR ''('' \<notin> set g2" and "CHR '')'' \<notin> set g2"
  shows "paren_groups (g1 @ CHR ''('' # g2 @ CHR '')'' # rest) = Some (g1, g2)"
proof -
  have 1: "takeWhile noopen (g1 @ CHR ''('' # g2 @ CHR '')'' # rest) = g1"
    "dropWhile noopen (g1 @ CHR ''('' # g2 @ CHR '')'' # rest) = CHR ''('' # g2 @ CHR '')'' # rest"
    using assms(1) by (induction g1) auto
  have 2: "takeWhile noparen (g2 @ CHR '')'' # rest) = g2"
    "dropWhile noparen (g2 @ CHR '')'' # rest) = CHR '')'' # rest"
    using assms(3,4) by (induction g2) auto
  show ?thesis
    unfolding paren_groups_def 1 using assms(2) by (simp add: 2)
qed

section \<open>The list of types\<close>

lemma fold_types:
  "fold (\<lambda>fileFilter types.
           case Type_fromQt fileFilter of Some type \<Rightarrow> val_push types type | None \<Rightarrow> types)
        filterList (Array acc)
   = Array (acc @ parsed_types filterList)"
proof (induction filterList arbitrary: acc)
  case Nil
  show ?case by (simp add: parsed_types_def)
next
  case (Cons f fs)
  show ?case
  proof (cases "Type_fromQt f")
    case None
    then show ?thesis using Cons.IH [of acc] by (simp add: parsed_types_def)
  next
    case (Some t)
    then show ?thesis using Cons.IH [of "acc @ [t]"] by (simp add: parsed_types_def)
  qed
qed

lemma qtFilterListToTypes_eq:
  "qtFilterListToTypes filterList =
     (if parsed_types filterList = [] then None else Some (Array (parsed_types filterList)))"
  unfolding qtFilterListToTypes_def fold_types by (simp add: Let_def)

lemma makeOpenFileOptions_eq:
  "makeOpenFileOptions filterList acceptMultiple =
     (if parsed_types filterList = [] then Object [(''multiple'', Bool acceptMultiple)]
      else Object [(''types'', Array (parsed_types filterList)),
                   (''excludeAcceptAllOption'', Bool True),
                   (''multiple'', Bool acceptMultiple)])"
  unfolding makeOpenFileOptions_def qtFilterListToTypes_eq by (simp add: Let_def)

lemma makeSaveFileOptions_eq:
  "makeSaveFileOptions filterList suggestedName =
     Object ((if suggestedName = [] then [] else [(''suggestedName'', Str suggestedName)]) @
             (if parsed_types filterList = [] then []
              else [(''types'', Array (parsed_types filterList))]))"
  unfolding makeSaveFileOptions_def qtFilterListToTypes_eq by (simp add: Let_def)

lemma Accept_fromQt_no_token:
  assumes "set q \<subseteq> set space_class"
  shows "Accept_fromQt q = Some (Object [(''application/octet-stream'', Array [])])"
proof -
  from assms have "\<forall>x\<in>set q. ws x" by blast
  then have "dropWhile ws q = []" by (simp only: dropWhile_eq_Nil_conv)
  then have "tokens q = []" by (rule tokens_no_token)
  then show ?thesis by (simp add: Accept_fromQt_tokens)
qed

lemma Type_fromQt_shape:
  assumes "CHR ''('' \<notin> set g1" and "g2 \<noteq> []" and "CHR ''('' \<notin> set g2" and "CHR '')'' \<notin> set g2"
  shows "Type_fromQt (g1 @ ''('' @ g2 @ '')'' @ rest) =
     (case Accept_fromQt g2 of
        None \<Rightarrow> None
      | Some a \<Rightarrow> Some (Object [(''description'', Str (trimmed g1)), (''accept'', a)]))"
proof -
  have eq: "g1 @ ''('' @ g2 @ '')'' @ rest = g1 @ CHR ''('' # g2 @ CHR '')'' # rest" by simp
  show ?thesis
    unfolding eq by (rule Type_fromQt_groups [OF paren_groups_shape [OF assms]])
qed

lemma type_captures_cases:
  "type_captures s = Some c \<Longrightarrow> (\<exists>g1 g2. c = [(2, g2), (1, g1)]) \<or> (\<exists>g3. c = [(3, g3)])"
proof (induction s)
  case Nil
  then show ?case by simp
next
  case (Cons x xs)
  show ?case
  proof (cases "paren_groups (x # xs)")
    case (Some g)
    with Cons.prems show ?thesis by (cases g) auto
  next
    case None
    with Cons show ?thesis by (cases "noparen x") (auto simp del: takeWhile.simps)
  qed
qed

lemma Extension_fromQt_ok:
  assumes "Extension_fromQt t = Some v"
  shows "\<exists>e. v = Str e \<and> extension_ok e"
proof -
  from assms obtain e where "ext_body e" and "v = Str (CHR ''.'' # e)"
    unfolding Extension_fromQt_Some_iff by blast
  then have "v = Str (CHR ''.'' # e) \<and> extension_ok (CHR ''.'' # e)"
    by (simp add: extension_ok_def ext_body_def)
  then show ?thesis by blast
qed

lemma map_Str_ok:
  "(\<And>x. x \<in> set xs \<Longrightarrow> \<exists>e. f x = Str e \<and> extension_ok e) \<Longrightarrow>
     \<exists>es. map f xs = map Str es \<and> (\<forall>e \<in> set es. extension_ok e)"
proof (induction xs)
  case Nil
  show ?case by simp
next
  case (Cons x xs)
  from Cons.prems [of x] obtain e where e: "f x = Str e" "extension_ok e" by auto
  from Cons.IH Cons.prems obtain es where es: "map f xs = map Str es" "\<forall>e \<in> set es. extension_ok e"
    by auto
  have "map f (x # xs) = map Str (e # es) \<and> (\<forall>e' \<in> set (e # es). extension_ok e')"
    using e es by simp
  then show ?case by blast
qed

lemma Accept_fromQt_ok:
  assumes "Accept_fromQt q = Some a"
  shows "\<exists>es. a = Object [(''application/octet-stream'', Array (map Str es))] \<and>
              (\<forall>e \<in> set es. extension_ok e)"
proof -
  from assms have all: "\<forall>t \<in> set (tokens q). Extension_fromQt t \<noteq> None"
    and a: "a = Object [(''application/octet-stream'',
                  Array (map (\<lambda>t. the (Extension_fromQt t)) (tokens q)))]"
    unfolding Accept_fromQt_tokens by (auto split: if_splits)
  have "\<exists>e. the (Extension_fromQt t) = Str e \<and> extension_ok e" if "t \<in> set (tokens q)" for t
  proof -
    from all that obtain v where v: "Extension_fromQt t = Some v" by auto
    from Extension_fromQt_ok [OF v] show ?thesis by (simp add: v)
  qed
  from map_Str_ok [of "tokens q" "\<lambda>t. the (Extension_fromQt t)", OF this]
  obtain es where "map (\<lambda>t. the (Extension_fromQt t)) (tokens q) = map Str es"
    and "\<forall>e \<in> set es. extension_ok e" by blast
  with a show ?thesis by auto
qed

lemma Type_fromQt_ok:
  assumes "Type_fromQt s = Some ty"
  shows "\<exists>d es. ty = Object [(''description'', Str d),
                  (''accept'', Object [(''application/octet-stream'', Array (map Str es))])] \<and>
              (\<forall>e \<in> set es. extension_ok e)"
proof -
  from assms obtain d q a where a: "Accept_fromQt q = Some a"
    and ty: "ty = Type d (Some a)"
    by (auto simp: Type_fromQt_def Let_def split: option.splits)
  from Accept_fromQt_ok [OF a] ty show ?thesis
    unfolding Type_description by blast
qed

lemma parsed_types_ok:
  assumes "ty \<in> set (parsed_types filterList)"
  shows "\<exists>d es. ty = Object [(''description'', Str d),
                  (''accept'', Object [(''application/octet-stream'', Array (map Str es))])] \<and>
              (\<forall>e \<in> set es. extension_ok e)"
proof -
  from assms obtain s where "Type_fromQt s \<noteq> None" and "ty = the (Type_fromQt s)"
    by (auto simp: parsed_types_def)
  then have "Type_fromQt s = Some ty" by auto
  then show ?thesis by (rule Type_fromQt_ok)
qed

section \<open>Properties of the filter translator\<close>

text \<open>
  C1. \<open>makeOpenFileOptions\<close> keeps, in input order and with repetitions, the file types of
  the specs that \<open>Type_fromQt\<close> accepts, and drops the others. When none is left the result
  has neither \<open>types\<close> nor \<open>excludeAcceptAllOption\<close>; otherwise it has both, the second
  being true. \<open>multiple\<close> is always the flag that was passed.
\<close>

theorem makeOpenFileOptions_types:
  "makeOpenFileOptions filterList m =
     (let types = map (\<lambda>s. the (Type_fromQt s)) (filter (\<lambda>s. Type_fromQt s \<noteq> None) filterList)
      in if types = [] then Object [(''multiple'', Bool m)]
         else Object [(''types'', Array types),
                      (''excludeAcceptAllOption'', Bool True),
                      (''multiple'', Bool m)])"
  unfolding makeOpenFileOptions_eq parsed_types_def Let_def ..

theorem makeOpenFileOptions_types_witness:
  "makeOpenFileOptions [''*.png'', ''*''] False =
     Object [(''types'',
              Array [Object [(''description'', Str []),
                             (''accept'', Object [(''application/octet-stream'', Array [Str ''.png''])])]]),
             (''excludeAcceptAllOption'', Bool True), (''multiple'', Bool False)] \<and>
   makeOpenFileOptions [] True = Object [(''multiple'', Bool True)]"
proof -
  have t: "Type_fromQt ''*.png'' =
      Some (Object [(''description'', Str []),
                    (''accept'', Object [(''application/octet-stream'', Array [Str ''.png''])])])"
    "Type_fromQt ''*'' = None"
    by code_simp+
  show ?thesis
    unfolding makeOpenFileOptions_types by (simp add: t)
qed

text \<open>
  C2. \<open>Accept_fromQt\<close> splits the text on runs of white space and parses every token
  with \<open>Extension_fromQt\<close>. If one token fails, the whole text fails; otherwise the
  result holds the parsed extensions in token order.
\<close>

theorem Accept_fromQt_all_or_nothing:
  "Accept_fromQt q =
     (if \<forall>t \<in> set (tokens q). Extension_fromQt t \<noteq> None
      then Some (Object [(''application/octet-stream'',
                  Array (map (\<lambda>t. the (Extension_fromQt t)) (tokens q)))])
      else None)"
  by (rule Accept_fromQt_tokens)

theorem Accept_fromQt_all_or_nothing_witness:
  "Accept_fromQt ''*.png *.jpg'' =
     Some (Object [(''application/octet-stream'', Array [Str ''.png'', Str ''.jpg''])]) \<and>
   Accept_fromQt ''*.png bad*name'' = None"
proof -
  have t: "tokens ''*.png *.jpg'' = [''*.png'', ''*.jpg'']"
    "tokens ''*.png bad*name'' = [''*.png'', ''bad*name'']"
    by code_simp+
  have e: "Extension_fromQt ''*.png'' = Some (Str ''.png'')"
    "Extension_fromQt ''*.jpg'' = Some (Str ''.jpg'')"
    "Extension_fromQt ''bad*name'' = None"
    by code_simp+
  have "Accept_fromQt ''*.png *.jpg'' =
     Some (Object [(''application/octet-stream'', Array [Str ''.png'', Str ''.jpg''])])"
    unfolding Accept_fromQt_all_or_nothing [of "''*.png *.jpg''"] t by (simp add: e)
  moreover have "Accept_fromQt ''*.png bad*name'' = None"
    unfolding Accept_fromQt_all_or_nothing [of "''*.png bad*name''"] t by (simp add: e)
  ultimately show ?thesis by (rule conjI)
qed

text \<open>
  C3. A token that consists of one or more asterisks, or of one or more asterisks, a dot
  and one or more asterisks, is not an extension: \<open>Extension_fromQt\<close> returns nothing.
\<close>

theorem Extension_fromQt_wildcard:
  "0 < m \<Longrightarrow> 0 < n \<Longrightarrow>
     Extension_fromQt (replicate m CHR ''*'') = None \<and>
     Extension_fromQt (replicate m CHR ''*'' @ ''.'' @ replicate n CHR ''*'') = None"
proof -
  assume m: "0 < m" and n: "0 < n"
  have 1: "regex_match qtAcceptAllRegex (replicate m CHR ''*'') 0 \<noteq> None"
    unfolding acceptAll_hasMatch using m by simp
  have "takeWhile star (replicate m CHR ''*'' @ ''.'' @ replicate n CHR ''*'') = replicate m CHR ''*''"
    "dropWhile star (replicate m CHR ''*'' @ ''.'' @ replicate n CHR ''*'') = ''.'' @ replicate n CHR ''*''"
    by (induction m) simp_all
  then have 2: "regex_match qtAcceptAllRegex (replicate m CHR ''*'' @ ''.'' @ replicate n CHR ''*'') 0 \<noteq> None"
    unfolding acceptAll_hasMatch using m n by simp
  from 1 2 show ?thesis
    by (simp add: Extension_fromQt_def)
qed

theorem Extension_fromQt_wildcard_witness:
  "Extension_fromQt ''*'' = None \<and> Extension_fromQt ''*.*'' = None \<and>
   Extension_fromQt ''**'' = None \<and> Extension_fromQt ''**.*'' = None"
  using Extension_fromQt_wildcard [of "Suc 0" "Suc 0"]
    Extension_fromQt_wildcard [of "Suc (Suc 0)" "Suc 0"]
  by simp

text \<open>
  C4. \<open>Extension_fromQt\<close> succeeds exactly on the tokens that are, in full, an optional
  single asterisk, a dot and one or more characters other than the asterisk; the result
  is the token from the dot on. No such token is a pure wildcard, so the equivalence holds
  for every token.
\<close>

theorem Extension_fromQt_shape:
  "Extension_fromQt t = Some v \<longleftrightarrow>
     (\<exists>e. e \<noteq> [] \<and> CHR ''*'' \<notin> set e \<and> (t = ''.'' @ e \<or> t = ''*.'' @ e) \<and> v = Str (''.'' @ e))"
  unfolding Extension_fromQt_Some_iff ext_body_def by simp

theorem Extension_fromQt_shape_witness:
  "Extension_fromQt ''.png'' = Some (Str ''.png'') \<and>
   Extension_fromQt ''*.png'' = Some (Str ''.png'') \<and>
   Extension_fromQt ''readme'' = None"
proof -
  have "Extension_fromQt ''readme'' \<noteq> Some v" for v
    using Extension_fromQt_shape [of "''readme''" v] by simp
  then have "\<forall>v. Extension_fromQt ''readme'' \<noteq> Some v" ..
  then have "Extension_fromQt ''readme'' = None"
    by (simp only: not_Some_eq)
  then show ?thesis
    using Extension_fromQt_shape [of "''.png''" "Str ''.png''"]
      Extension_fromQt_shape [of "''*.png''" "Str ''.png''"]
    by simp
qed

text \<open>
  C5. On a spec that starts with a run of characters without an opening parenthesis,
  followed by a parenthesized, non-empty run of characters that are not parentheses,
  \<open>Type_fromQt\<close> takes the first run, trimmed, as the description and the second run as
  the extension list. What follows the closing parenthesis is not looked at.
\<close>

theorem Type_fromQt_parenthesized:
  "CHR ''('' \<notin> set g1 \<Longrightarrow> g2 \<noteq> [] \<Longrightarrow> CHR ''('' \<notin> set g2 \<Longrightarrow> CHR '')'' \<notin> set g2 \<Longrightarrow>
     Type_fromQt (g1 @ ''('' @ g2 @ '')'' @ rest) =
       (case Accept_fromQt g2 of
          None \<Rightarrow> None
        | Some accept \<Rightarrow>
            Some (Object [(''description'', Str (trimmed g1)), (''accept'', accept)]))"
  by (rule Type_fromQt_shape)

theorem Type_fromQt_parenthesized_witness:
  "CHR ''('' \<notin> set ''Images '' \<and> ''*.png *.jpg'' \<noteq> [] \<and>
   CHR ''('' \<notin> set ''*.png *.jpg'' \<and> CHR '')'' \<notin> set ''*.png *.jpg'' \<and>
   Type_fromQt ''Images (*.png *.jpg)'' =
     Some (Object [(''description'', Str ''Images''),
                   (''accept'', Object [(''application/octet-stream'',
                                         Array [Str ''.png'', Str ''.jpg''])])])"
proof -
  have h: "CHR ''('' \<notin> set ''Images ''" "''*.png *.jpg'' \<noteq> []"
    "CHR ''('' \<notin> set ''*.png *.jpg''" "CHR '')'' \<notin> set ''*.png *.jpg''"
    by simp_all
  have a: "Accept_fromQt ''*.png *.jpg'' =
     Some (Object [(''application/octet-stream'', Array [Str ''.png'', Str ''.jpg''])])"
    by code_simp
  have tr: "trimmed ''Images '' = ''Images''" by (simp add: trimmed_def isSpace_def)
  from Type_fromQt_parenthesized [OF h, of "[]"] show ?thesis
    by (simp add: a tr)
qed

text \<open>
  C6. A spec that has a parenthesis but no complete parenthesized group should be a parse
  failure, and nothing of a spec should be consumed in part. The code misses this: the
  file type pattern is passed to \<^verbatim>\<open>match\<close> without \<^verbatim>\<open>anchoredPattern\<close>, which both patterns of
  \<^verbatim>\<open>Extension::fromQt\<close> have, so the pattern is searched for. The specs \<open>(*.png\<close> and
  \<open>*.png (\<close>, which are in neither of the formats that the comment of \<^verbatim>\<open>Type::fromQt\<close>
  names, are accepted with the extension \<open>.png\<close>.
\<close>

theorem Type_fromQt_open_paren_accepted:
  "CHR ''('' \<in> set ''(*.png'' \<and> CHR '')'' \<notin> set ''(*.png'' \<and>
   Type_fromQt ''(*.png'' =
     Some (Object [(''description'', Str []),
                   (''accept'', Object [(''application/octet-stream'', Array [Str ''.png''])])]) \<and>
   CHR ''('' \<in> set ''*.png ('' \<and> CHR '')'' \<notin> set ''*.png ('' \<and>
   Type_fromQt ''*.png ('' =
     Some (Object [(''description'', Str []),
                   (''accept'', Object [(''application/octet-stream'', Array [Str ''.png''])])])"
proof -
  have "Type_fromQt ''(*.png'' =
     Some (Object [(''description'', Str []),
                   (''accept'', Object [(''application/octet-stream'', Array [Str ''.png''])])])"
    by code_simp
  moreover have "Type_fromQt ''*.png ('' =
     Some (Object [(''description'', Str []),
                   (''accept'', Object [(''application/octet-stream'', Array [Str ''.png''])])])"
    by code_simp
  ultimately show ?thesis by simp
qed

text \<open>
  C7, as stated, fails: \<open>makeSaveFileOptions\<close> never stores \<open>excludeAcceptAllOption\<close>.
\<close>

theorem makeSaveFileOptions_exclude_counterexample:
  "val_get (makeSaveFileOptions [''*.pdf''] []) ''types'' =
     Some (Array [Object [(''description'', Str []),
                          (''accept'', Object [(''application/octet-stream'', Array [Str ''.pdf''])])]]) \<and>
   val_get (makeSaveFileOptions [''*.pdf''] []) ''excludeAcceptAllOption'' = None"
proof -
  have "makeSaveFileOptions [''*.pdf''] [] =
     Object [(''types'', Array [Object [(''description'', Str []),
                          (''accept'', Object [(''application/octet-stream'', Array [Str ''.pdf''])])]])]"
    by code_simp
  then show ?thesis by simp
qed

text \<open>
  C7, amended. \<open>makeSaveFileOptions\<close> stores under \<open>types\<close> what \<open>makeOpenFileOptions\<close> stores
  there, the key being present exactly when some spec is accepted, and it never stores
  \<open>excludeAcceptAllOption\<close>.
\<close>

theorem makeSaveFileOptions_types:
  "val_get (makeSaveFileOptions filterList suggestedName) ''types'' =
     val_get (makeOpenFileOptions filterList m) ''types'' \<and>
   (val_get (makeSaveFileOptions filterList suggestedName) ''types'' \<noteq> None \<longleftrightarrow>
      (\<exists>s \<in> set filterList. Type_fromQt s \<noteq> None)) \<and>
   val_get (makeSaveFileOptions filterList suggestedName) ''excludeAcceptAllOption'' = None"
proof -
  have "parsed_types filterList \<noteq> [] \<longleftrightarrow> (\<exists>s \<in> set filterList. Type_fromQt s \<noteq> None)"
    by (auto simp: parsed_types_def filter_empty_conv)
  then show ?thesis
    by (auto simp add: makeSaveFileOptions_eq makeOpenFileOptions_eq)
qed

theorem makeSaveFileOptions_types_witness:
  "val_get (makeSaveFileOptions [''*.pdf''] ''a.pdf'') ''types'' =
     val_get (makeOpenFileOptions [''*.pdf''] True) ''types'' \<and>
   val_get (makeSaveFileOptions [''*.pdf''] ''a.pdf'') ''types'' \<noteq> None \<and>
   val_get (makeSaveFileOptions [''*.pdf''] ''a.pdf'') ''excludeAcceptAllOption'' = None"
proof -
  have t: "Type_fromQt ''*.pdf'' \<noteq> None" by code_simp
  then have "\<exists>s \<in> set [''*.pdf'']. Type_fromQt s \<noteq> None" by simp
  with makeSaveFileOptions_types [of "[''*.pdf'']" "''a.pdf''" True] show ?thesis
    by blast
qed

text \<open>
  C8, as stated, fails: the constructor of \<open>Type\<close> stores the key \<open>description\<close> always;
  without a first group its value is the empty string.
\<close>

theorem Type_fromQt_plain_description_counterexample:
  "Type_fromQt ''*.txt'' =
     Some (Object [(''description'', Str []),
                   (''accept'', Object [(''application/octet-stream'', Array [Str ''.txt''])])]) \<and>
   val_get (Object [(''description'', Str []),
                   (''accept'', Object [(''application/octet-stream'', Array [Str ''.txt''])])])
     ''description'' \<noteq> None"
proof -
  have "Type_fromQt ''*.txt'' =
     Some (Object [(''description'', Str []),
                   (''accept'', Object [(''application/octet-stream'', Array [Str ''.txt''])])])"
    by code_simp
  then show ?thesis by simp
qed

text \<open>
  C8, amended. When the match of the file type pattern has no second group, so that the
  third group is the extension list, the file type has the empty string as its
  description.
\<close>

theorem Type_fromQt_plain_description:
  assumes "regex_match type_regex spec 0 = Some m" and "\<not> hasCaptured m 2"
  shows "Type_fromQt spec =
     (case Accept_fromQt (capturedView m 3) of
        None \<Rightarrow> None
      | Some accept \<Rightarrow> Some (Object [(''description'', Str []), (''accept'', accept)]))"
proof -
  from assms(1) have "search type_regex 0 spec = Some m"
    by (simp add: regex_match_def)
  with search_type_regex [of 0 spec] have tc: "type_captures spec = Some (captures m)"
    by simp
  from type_captures_cases [OF tc] assms(2) obtain g3 where c: "captures m = [(3, g3)]"
    by (auto simp: hasCaptured_def)
  show ?thesis
    by (simp add: Type_fromQt_def assms(1) hasCaptured_def capturedView_def c
        Type_description trimmed_Nil split: option.splits)
qed

theorem Type_fromQt_plain_description_witness:
  "regex_match type_regex ''*.txt'' 0 =
     Some \<lparr>capturedStart = 0, capturedEnd = 5, captures = [(3, ''*.txt'')]\<rparr> \<and>
   \<not> hasCaptured \<lparr>capturedStart = 0, capturedEnd = 5, captures = [(3, ''*.txt'')]\<rparr> 2 \<and>
   Type_fromQt ''*.txt'' =
     Some (Object [(''description'', Str []),
                   (''accept'', Object [(''application/octet-stream'', Array [Str ''.txt''])])])"
proof -
  have h1: "regex_match type_regex ''*.txt'' 0 =
     Some \<lparr>capturedStart = 0, capturedEnd = 5, captures = [(3, ''*.txt'')]\<rparr>"
    by code_simp
  have h2: "\<not> hasCaptured \<lparr>capturedStart = 0, capturedEnd = 5, captures = [(3, ''*.txt'')]\<rparr> 2"
    by (simp add: hasCaptured_def)
  have a: "Accept_fromQt ''*.txt'' =
      Some (Object [(''application/octet-stream'', Array [Str ''.txt''])])"
    by code_simp
  have "Type_fromQt ''*.txt'' =
     Some (Object [(''description'', Str []),
                   (''accept'', Object [(''application/octet-stream'', Array [Str ''.txt''])])])"
    unfolding Type_fromQt_plain_description [OF h1 h2] by (simp add: capturedView_def a)
  with h1 h2 show ?thesis by blast
qed

text \<open>
  C9. An extension that \<open>Extension_fromQt\<close> returns is not empty, starts with a dot and has
  no asterisk. So has every entry of the list that \<open>Accept_fromQt\<close> returns, and every entry
  of every file type under \<open>types\<close> in the options for opening and for saving.
\<close>

theorem Extension_invariant:
  "(Extension_fromQt t = Some v \<longrightarrow> (\<exists>e. v = Str e \<and> extension_ok e)) \<and>
   (Accept_fromQt q = Some a \<longrightarrow>
      (\<exists>es. a = Object [(''application/octet-stream'', Array (map Str es))] \<and>
            (\<forall>e \<in> set es. extension_ok e))) \<and>
   (val_get (makeOpenFileOptions filterList m) ''types'' = Some ts \<or>
    val_get (makeSaveFileOptions filterList n) ''types'' = Some ts \<longrightarrow>
      (\<exists>tys. ts = Array tys \<and>
         (\<forall>ty \<in> set tys. \<exists>d es.
            ty = Object [(''description'', Str d),
                   (''accept'', Object [(''application/octet-stream'', Array (map Str es))])] \<and>
            (\<forall>e \<in> set es. extension_ok e))))"
proof (intro conjI impI)
  assume "Extension_fromQt t = Some v"
  then show "\<exists>e. v = Str e \<and> extension_ok e" by (rule Extension_fromQt_ok)
next
  assume "Accept_fromQt q = Some a"
  then show "\<exists>es. a = Object [(''application/octet-stream'', Array (map Str es))] \<and>
            (\<forall>e \<in> set es. extension_ok e)" by (rule Accept_fromQt_ok)
next
  assume "val_get (makeOpenFileOptions filterList m) ''types'' = Some ts \<or>
    val_get (makeSaveFileOptions filterList n) ''types'' = Some ts"
  then have "ts = Array (parsed_types filterList)"
    by (auto simp: makeOpenFileOptions_eq makeSaveFileOptions_eq split: if_splits)
  with parsed_types_ok [of _ filterList]
  show "\<exists>tys. ts = Array tys \<and>
         (\<forall>ty \<in> set tys. \<exists>d es.
            ty = Object [(''description'', Str d),
                   (''accept'', Object [(''application/octet-stream'', Array (map Str es))])] \<and>
            (\<forall>e \<in> set es. extension_ok e))"
    by blast
qed

theorem Extension_invariant_witness:
  "Extension_fromQt ''*.png'' = Some (Str ''.png'') \<and> extension_ok ''.png'' \<and>
   Accept_fromQt ''*.png *.jpg'' =
     Some (Object [(''application/octet-stream'', Array (map Str [''.png'', ''.jpg'']))]) \<and>
   val_get (makeOpenFileOptions [''*.png''] True) ''types'' =
     Some (Array [Object [(''description'', Str []),
            (''accept'', Object [(''application/octet-stream'', Array (map Str [''.png'']))])]]) \<and>
   (\<exists>tys. Array [Object [(''description'', Str []),
            (''accept'', Object [(''application/octet-stream'', Array (map Str [''.png'']))])]] = Array tys \<and>
         (\<forall>ty \<in> set tys. \<exists>d es.
            ty = Object [(''description'', Str d),
                   (''accept'', Object [(''application/octet-stream'', Array (map Str es))])] \<and>
            (\<forall>e \<in> set es. extension_ok e)))"
proof -
  have e: "Extension_fromQt ''*.png'' = Some (Str ''.png'')" by code_simp
  have a: "Accept_fromQt ''*.png *.jpg'' =
     Some (Object [(''application/octet-stream'', Array (map Str [''.png'', ''.jpg'']))])"
    by code_simp
  have o: "val_get (makeOpenFileOptions [''*.png''] True) ''types'' =
     Some (Array [Object [(''description'', Str []),
            (''accept'', Object [(''application/octet-stream'', Array (map Str [''.png'']))])]])"
    by code_simp
  note inv = Extension_invariant [of "''*.png''" "Str ''.png''" "''*.png *.jpg''"
      "Object [(''application/octet-stream'', Array (map Str [''.png'', ''.jpg'']))]"
      "[''*.png'']" True
      "Array [Object [(''description'', Str []),
            (''accept'', Object [(''application/octet-stream'', Array (map Str [''.png'']))])]]"
      "[]"]
  from inv e have "extension_ok ''.png''" by auto
  moreover from inv o have "\<exists>tys. Array [Object [(''description'', Str []),
            (''accept'', Object [(''application/octet-stream'', Array (map Str [''.png'']))])]] = Array tys \<and>
         (\<forall>ty \<in> set tys. \<exists>d es.
            ty = Object [(''description'', Str d),
                   (''accept'', Object [(''application/octet-stream'', Array (map Str es))])] \<and>
            (\<forall>e \<in> set es. extension_ok e))"
    by blast
  ultimately show ?thesis using e a o by blast
qed

text \<open>
  C10. A text without any character other than white space has no token: \<open>Accept_fromQt\<close>
  succeeds with an empty list of extensions. Between parentheses, such a text gives a file
  type with an empty list, and the file type is kept in \<open>types\<close>.
\<close>

theorem Accept_fromQt_blank:
  "set q \<subseteq> set space_class \<Longrightarrow>
     Accept_fromQt q = Some (Object [(''application/octet-stream'', Array [])]) \<and>
     (q \<noteq> [] \<and> CHR ''('' \<notin> set g1 \<longrightarrow>
        Type_fromQt (g1 @ ''('' @ q @ '')'') =
          Some (Object [(''description'', Str (trimmed g1)),
                        (''accept'', Object [(''application/octet-stream'', Array [])])]) \<and>
        makeOpenFileOptions [g1 @ ''('' @ q @ '')''] m =
          Object [(''types'', Array [Object [(''description'', Str (trimmed g1)),
                        (''accept'', Object [(''application/octet-stream'', Array [])])]]),
                  (''excludeAcceptAllOption'', Bool True), (''multiple'', Bool m)])"
proof -
  assume sub: "set q \<subseteq> set space_class"
  have a: "Accept_fromQt q = Some (Object [(''application/octet-stream'', Array [])])"
    by (rule Accept_fromQt_no_token [OF sub])
  have "CHR ''('' \<notin> set space_class" "CHR '')'' \<notin> set space_class"
    by (simp_all add: space_class_def)
  with sub have np: "CHR ''('' \<notin> set q" "CHR '')'' \<notin> set q" by blast+
  have b: "Type_fromQt (g1 @ ''('' @ q @ '')'') =
          Some (Object [(''description'', Str (trimmed g1)),
                        (''accept'', Object [(''application/octet-stream'', Array [])])])"
    if "q \<noteq> []" "CHR ''('' \<notin> set g1"
    using Type_fromQt_shape [OF that(2) that(1) np, of "[]"] by (simp add: a)
  have c: "makeOpenFileOptions [s] m =
          Object [(''types'', Array [t]), (''excludeAcceptAllOption'', Bool True), (''multiple'', Bool m)]"
    if "Type_fromQt s = Some t" for s t
    by (simp add: makeOpenFileOptions_eq parsed_types_def that)
  show ?thesis
    using a b c [OF b] by blast
qed

theorem Accept_fromQt_blank_witness:
  "set ''  '' \<subseteq> set space_class \<and>
   Accept_fromQt ''  '' = Some (Object [(''application/octet-stream'', Array [])]) \<and>
   Type_fromQt ''Images ( )'' =
     Some (Object [(''description'', Str ''Images''),
                   (''accept'', Object [(''application/octet-stream'', Array [])])]) \<and>
   makeOpenFileOptions [''Images ( )''] True =
     Object [(''types'', Array [Object [(''description'', Str ''Images''),
                   (''accept'', Object [(''application/octet-stream'', Array [])])]]),
             (''excludeAcceptAllOption'', Bool True), (''multiple'', Bool True)]"
proof -
  have h1: "set ''  '' \<subseteq> set space_class" by (simp add: space_class_def)
  have h2: "set '' '' \<subseteq> set space_class" by (simp add: space_class_def)
  have tr: "trimmed ''Images '' = ''Images''" by (simp add: trimmed_def isSpace_def)
  show ?thesis
    using h1 Accept_fromQt_blank [OF h1, of "[]" True]
      Accept_fromQt_blank [OF h2, of "''Images ''" True]
    by (simp add: tr)
qed

end
